theory Spec2Isabelle
  imports Main
begin

section \<open>Strings and exceptions\<close>

text \<open>
  Python strings are modelled as \<open>string\<close>; a \<open>char\<close> stands for a code point
  below 256. Exceptions are values of \<open>error\<close>. \<open>NotModelled\<close> marks an input on
  which the Python standard library (\<open>re\<close>, \<open>str.format\<close>, the \<open>%\<close> operator) uses
  a construct outside the fragment described here; it is never an outcome of the program.
\<close>

datatype message =
    NoKnownPaths string "string list" "(string \<times> string) list"
  | NoRoute string

datatype error =
    ReError
  | ValueError
  | IndexError
  | KeyError
  | TypeError
  | RoutingError message
  | NotModelled

definition startswith :: "string \<Rightarrow> string \<Rightarrow> bool" where
  "startswith s p = (take (length p) s = p)"

definition rstrip :: "char \<Rightarrow> string \<Rightarrow> string" where
  \<comment> \<open>\<open>s.rstrip(c)\<close>: every trailing \<open>c\<close> is removed.\<close>
  "rstrip c s = rev (dropWhile (\<lambda>x. x = c) (rev s))"

definition in_Az :: "char \<Rightarrow> bool" where
  \<comment> \<open>The character class \<open>[A-z]\<close>: code points 65 to 122, which besides the letters
      holds the six characters between \<open>Z\<close> and \<open>a\<close>.\<close>
  "in_Az c = (65 \<le> (of_char c :: nat) \<and> (of_char c :: nat) \<le> 122)"

definition is_digit :: "char \<Rightarrow> bool" where
  "is_digit c = (48 \<le> (of_char c :: nat) \<and> (of_char c :: nat) \<le> 57)"

definition is_alpha :: "char \<Rightarrow> bool" where
  "is_alpha c = ((65 \<le> (of_char c :: nat) \<and> (of_char c :: nat) \<le> 90)
               \<or> (97 \<le> (of_char c :: nat) \<and> (of_char c :: nat) \<le> 122))"

definition is_ascii :: "char \<Rightarrow> bool" where
  "is_ascii c = ((of_char c :: nat) < 128)"

definition isidentifier :: "string \<Rightarrow> bool" where
  \<comment> \<open>\<open>str.isidentifier()\<close> on an ASCII string.\<close>
  "isidentifier s =
     (case s of
        [] \<Rightarrow> False
      | c # cs \<Rightarrow> (is_alpha c \<or> c = CHR ''_'')
                 \<and> list_all (\<lambda>x. is_alpha x \<or> is_digit x \<or> x = CHR ''_'') cs)"

fun first_Some :: "('a \<Rightarrow> 'b option) \<Rightarrow> 'a list \<Rightarrow> 'b option" where
  "first_Some f [] = None"
| "first_Some f (x # xs) = (case f x of Some y \<Rightarrow> Some y | None \<Rightarrow> first_Some f xs)"

fun cons_ok :: "'a \<Rightarrow> error + 'a list \<Rightarrow> error + 'a list" where
  "cons_ok x (Inl e) = Inl e"
| "cons_ok x (Inr xs) = Inr (x # xs)"

fun append_ok :: "'a list \<Rightarrow> error + 'a list \<Rightarrow> error + 'a list" where
  "append_ok xs (Inl e) = Inl e"
| "append_ok xs (Inr ys) = Inr (xs @ ys)"

section \<open>The regular expressions of the pattern compiler\<close>

text \<open>
  \<open>re.sub\<close> and \<open>re.findall\<close> scan the string from the left; at each position the
  expression is tried, a match is replaced (collected) and the scan goes on behind it,
  otherwise the character is kept and the scan moves one character on. A matcher gives,
  for the string at the current position, group 1 and the number of characters matched.
  Every expression used here matches at least two characters, so the treatment of empty
  matches by \<open>re\<close> plays no role.
\<close>

type_synonym matcher = "string \<Rightarrow> (string \<times> nat) option"

function re_sub :: "matcher \<Rightarrow> (string \<Rightarrow> string) \<Rightarrow> string \<Rightarrow> string" where
  "re_sub m repl [] = []"
| "re_sub m repl (c # cs) =
     (case m (c # cs) of
        None \<Rightarrow> c # re_sub m repl cs
      | Some (g, n) \<Rightarrow> repl g @ re_sub m repl (drop (n - 1) cs))"
  by pat_completeness auto
termination
  by (relation "measure (\<lambda>(m, repl, s). length s)") auto

function re_findall :: "matcher \<Rightarrow> string \<Rightarrow> string list" where
  "re_findall m [] = []"
| "re_findall m (c # cs) =
     (case m (c # cs) of
        None \<Rightarrow> re_findall m cs
      | Some (g, n) \<Rightarrow> g # re_findall m (drop (n - 1) cs))"
  by pat_completeness auto
termination
  by (relation "measure (\<lambda>(m, s). length s)") auto

text \<open>
  The expressions the compiler applies to a pattern are built from four constructs: a
  literal character, a greedy run \<open>[class]+\<close>, a greedy optional group \<open>(?:...)?\<close> and
  the capturing group 1, written as its two ends. \<open>rx_exec\<close> matches such an expression
  at the start of a string the way \<open>re\<close> does, by backtracking: a run takes the longest
  stretch first and gives characters back one at a time, an optional group is tried
  before it is skipped. It returns the span of group 1 and the position behind the match.
\<close>

datatype rx =
    Chr char
  | Plus "char \<Rightarrow> bool"
  | Opt "rx list"
  | GroupStart
  | GroupEnd

type_synonym span = "nat \<times> nat"

function rx_exec ::
  "rx list \<Rightarrow> string \<Rightarrow> nat \<Rightarrow> nat option \<Rightarrow> span option \<Rightarrow> (span option \<times> nat) option" where
  "rx_exec [] s pos start cap = Some (cap, pos)"
| "rx_exec (Chr c # r) s pos start cap =
     (case s of
        [] \<Rightarrow> None
      | x # xs \<Rightarrow> if x = c then rx_exec r xs (Suc pos) start cap else None)"
| "rx_exec (Plus P # r) s pos start cap =
     first_Some (\<lambda>k. rx_exec r (drop k s) (pos + k) start cap)
       (rev [1 ..< Suc (length (takeWhile P s))])"
| "rx_exec (Opt g # r) s pos start cap =
     (case rx_exec (g @ r) s pos start cap of
        Some m \<Rightarrow> Some m
      | None \<Rightarrow> rx_exec r s pos start cap)"
| "rx_exec (GroupStart # r) s pos start cap = rx_exec r s pos (Some pos) cap"
| "rx_exec (GroupEnd # r) s pos start cap =
     rx_exec r s pos start (map_option (\<lambda>b. (b, pos)) start)"
  by pat_completeness auto
termination
  by (relation "measure (\<lambda>(p, s, pos, start, cap). size_list size p)") simp_all

definition matcher_of :: "rx list \<Rightarrow> matcher" where
  \<comment> \<open>Group 1 (empty when the expression has no group) and the length of the match.\<close>
  "matcher_of p s =
     (case rx_exec p s 0 None None of
        None \<Rightarrow> None
      | Some (cap, n) \<Rightarrow>
          Some (case cap of None \<Rightarrow> [] | Some (b, e) \<Rightarrow> take (e - b) (drop b s), n))"

definition name_group :: "rx list" where
  \<comment> \<open>\<open>([A-z]+)\<close>\<close>
  "name_group = [GroupStart, Plus in_Az, GroupEnd]"

definition kw_pattern :: "rx list" where
  \<comment> \<open>\<open><(?:[^:]+:)?([A-z]+)>\<close>\<close>
  "kw_pattern =
     Chr CHR ''<'' # Opt [Plus (\<lambda>x. x \<noteq> CHR '':''), Chr CHR '':''] # name_group
       @ [Chr CHR ''>'']"

section \<open>Compiled expressions\<close>

text \<open>
  \<open>re.compile\<close> is modelled on the expressions \<open>^...$\<close> whose body is a sequence of
  ordinary characters, dots, and the two named groups the pattern compiler writes,
  \<open>(?P<name>[^/]+?)\<close> and \<open>(?P<name>.*)\<close>. A group name that is not an identifier and
  a name defined twice are errors of \<open>re\<close>; any other special character is outside the
  fragment.
\<close>

datatype item =
    Lit char
  | Dot
  | SegGroup string
  | PathGroup string

fun group_names :: "item list \<Rightarrow> string list" where
  "group_names [] = []"
| "group_names (Lit c # r) = group_names r"
| "group_names (Dot # r) = group_names r"
| "group_names (SegGroup n # r) = n # group_names r"
| "group_names (PathGroup n # r) = n # group_names r"

definition re_special :: "char \<Rightarrow> bool" where
  "re_special c = (c \<in> set ''.[{()*+?^$|'' \<or> c = CHR 0x5C)"

function parse_items :: "string \<Rightarrow> error + item list" where
  "parse_items [] = Inr []"
| "parse_items (c # cs) =
     (if c = CHR ''('' then
        (if startswith cs ''?P<'' then
           (let r = drop 3 cs;
                name = takeWhile (\<lambda>x. x \<noteq> CHR ''>'') r;
                r1 = dropWhile (\<lambda>x. x \<noteq> CHR ''>'') r
            in if r1 = [] then Inl ReError
               else if \<not> list_all is_ascii name then Inl NotModelled
               else if \<not> isidentifier name then Inl ReError
               else if startswith (tl r1) ''[^/]+?)''
                 then cons_ok (SegGroup name) (parse_items (drop 7 (tl r1)))
               else if startswith (tl r1) ''.*)''
                 then cons_ok (PathGroup name) (parse_items (drop 3 (tl r1)))
               else Inl NotModelled)
         else Inl NotModelled)
      else if c = CHR ''.'' then cons_ok Dot (parse_items cs)
      else if re_special c then Inl NotModelled
      else cons_ok (Lit c) (parse_items cs))"
  by pat_completeness auto
termination
proof (relation "measure length")
  fix c :: char and cs x xa xb :: string
  assume "xb = dropWhile (\<lambda>x. x \<noteq> CHR ''>'') x" "x = drop 3 cs"
  then have "length xb \<le> length cs"
    using length_dropWhile_le [of "\<lambda>x. x \<noteq> CHR ''>''" "drop 3 cs"] by simp
  then show "(drop 7 (tl xb), c # cs) \<in> measure length"
    and "(drop 3 (tl xb), c # cs) \<in> measure length"
    by simp_all
qed simp_all

definition re_compile :: "string \<Rightarrow> error + item list" where
  "re_compile s =
     (case s of
        [] \<Rightarrow> Inl NotModelled
      | c # r \<Rightarrow>
          if c = CHR ''^'' \<and> r \<noteq> [] \<and> last r = CHR ''$''
          then (case parse_items (butlast r) of
                  Inl e \<Rightarrow> Inl e
                | Inr items \<Rightarrow>
                    if distinct (group_names items) then Inr items else Inl ReError)
          else Inl NotModelled)"

text \<open>
  \<open>regex.search(path)\<close> for an expression anchored by \<open>^\<close>: the match starts at
  position 0. The items are matched from the left with backtracking: a lazy group tries
  the shortest run first, the greedy group the longest; a dot matches any character but
  a newline; \<open>$\<close> matches at the end of the string and before a newline that ends it.
  The result is \<open>groupdict()\<close>, in the order of the groups.
\<close>

fun match_items :: "item list \<Rightarrow> string \<Rightarrow> (string \<times> string) list option" where
  "match_items [] s = (if s = [] \<or> s = [CHR 0x0A] then Some [] else None)"
| "match_items (Lit c # r) s =
     (case s of [] \<Rightarrow> None | x # xs \<Rightarrow> if x = c then match_items r xs else None)"
| "match_items (Dot # r) s =
     (case s of [] \<Rightarrow> None | x # xs \<Rightarrow> if x \<noteq> CHR 0x0A then match_items r xs else None)"
| "match_items (SegGroup n # r) s =
     first_Some (\<lambda>k. map_option (\<lambda>g. (n, take k s) # g) (match_items r (drop k s)))
       [1 ..< Suc (length (takeWhile (\<lambda>x. x \<noteq> CHR ''/'') s))]"
| "match_items (PathGroup n # r) s =
     first_Some (\<lambda>k. map_option (\<lambda>g. (n, take k s) # g) (match_items r (drop k s)))
       (rev [0 ..< Suc (length (takeWhile (\<lambda>x. x \<noteq> CHR 0x0A) s))])"

section \<open>UrlRule\<close>

record UrlRule =
  pattern :: string
  keywords_list :: "string list"
  compiled_pattern :: string
  regex :: "item list"

definition UrlRule_init :: "string \<Rightarrow> error + UrlRule" where
  "UrlRule_init pattern0 =
     (let pat = rstrip CHR ''/'' pattern0;
          tmpl = re_sub (matcher_of kw_pattern) (\<lambda>g. ''{'' @ g @ ''}'') pat;
          kws = re_findall (matcher_of kw_pattern) pat;
          p1 = re_sub (matcher_of (map Chr ''<'' @ name_group @ [Chr CHR ''>'']))
                 (\<lambda>g. ''<string:'' @ g @ ''>'') pat;
          p2 = re_sub (matcher_of (map Chr ''<string:'' @ name_group @ [Chr CHR ''>'']))
                 (\<lambda>g. ''(?P<'' @ g @ ''>[^/]+?)'') p1;
          p3 = re_sub (matcher_of (map Chr ''<path:'' @ name_group @ [Chr CHR ''>'']))
                 (\<lambda>g. ''(?P<'' @ g @ ''>.*)'') p2
      in case re_compile (''^'' @ p3 @ ''$'') of
           Inl e \<Rightarrow> Inl e
         | Inr items \<Rightarrow>
             Inr \<lparr>pattern = tmpl, keywords_list = kws, compiled_pattern = p3, regex = items\<rparr>)"

definition match :: "UrlRule \<Rightarrow> string \<Rightarrow> (string \<times> string) list option" where
  "match rule path = match_items (regex rule) path"

section \<open>Reverse generation\<close>

text \<open>
  \<open>template.format(**kwargs)\<close> without positional arguments, on templates whose
  replacement fields are plain names: \<open>{{\<close> and \<open>}}\<close> are braces, a field with an
  empty or numeric name asks for a positional argument (IndexError), a name that is not
  a key is a KeyError, a lone brace is a ValueError. A field with a conversion, a format
  specification, an attribute or an index is outside the fragment. The template is read
  from the left and the first failure is raised.
\<close>

function str_format :: "string \<Rightarrow> (string \<times> string) list \<Rightarrow> error + string" where
  "str_format [] kw = Inr []"
| "str_format (c # cs) kw =
     (if c = CHR ''{'' then
        (if startswith cs ''{'' then cons_ok CHR ''{'' (str_format (tl cs) kw)
         else
           (let fld = takeWhile (\<lambda>x. x \<noteq> CHR ''}'') cs;
                rest = dropWhile (\<lambda>x. x \<noteq> CHR ''}'') cs
            in if list_ex (\<lambda>x. x \<in> set ''{!:.[]'') fld then Inl NotModelled
               else if rest = [] then Inl ValueError
               else if list_all is_digit fld
                 then (if length fld \<le> 9 then Inl IndexError else Inl NotModelled)
               else (case map_of kw fld of
                       None \<Rightarrow> Inl KeyError
                     | Some v \<Rightarrow> append_ok v (str_format (tl rest) kw))))
      else if c = CHR ''}'' then
        (if startswith cs ''}'' then cons_ok CHR ''}'' (str_format (tl cs) kw)
         else Inl ValueError)
      else cons_ok c (str_format cs kw))"
  by pat_completeness auto
termination
proof (relation "measure (\<lambda>(s, kw). length s)")
  fix c :: char and cs x xa :: string and kw :: "(string \<times> string) list"
  assume "xa = dropWhile (\<lambda>x. x \<noteq> CHR ''}'') cs"
  then have "length xa \<le> length cs"
    using length_dropWhile_le [of "\<lambda>x. x \<noteq> CHR ''}''" cs] by simp
  then show "((tl xa, kw), c # cs, kw) \<in> measure (\<lambda>(s, kw). length s)"
    by simp
qed simp_all

text \<open>
  \<open>fmt % args\<close> for a tuple of strings: \<open>%s\<close> takes the next argument, \<open>%%\<close> is a
  percent sign; too few or too many arguments are a TypeError, a \<open>%\<close> that ends the
  string is a ValueError. Other conversions are outside the fragment.
\<close>

fun percent_format :: "string \<Rightarrow> string list \<Rightarrow> error + string" where
  "percent_format [] args = (if args = [] then Inr [] else Inl TypeError)"
| "percent_format [c] args =
     (if c = CHR ''%'' then Inl ValueError else cons_ok c (percent_format [] args))"
| "percent_format (c # d # cs) args =
     (if c \<noteq> CHR ''%'' then cons_ok c (percent_format (d # cs) args)
      else if d = CHR ''s'' then
        (case args of
           [] \<Rightarrow> Inl TypeError
         | a # as \<Rightarrow> append_ok a (percent_format cs as))
      else if d = CHR ''%'' then cons_ok CHR ''%'' (percent_format cs args)
      else Inl NotModelled)"

text \<open>
  \<open>urlencode\<close> of a dict of strings (Python 3.7 and later): keys and values go through
  \<open>quote_plus\<close> with no extra safe characters; letters, digits and \<open>_.-~\<close> are kept,
  a space becomes \<open>+\<close>, any other code point is written as the bytes of its UTF-8
  encoding, each as \<open>%XX\<close>.
\<close>

definition hex_digit :: "nat \<Rightarrow> char" where
  "hex_digit n = ''0123456789ABCDEF'' ! (n mod 16)"

definition utf8 :: "char \<Rightarrow> nat list" where
  "utf8 c = (let n = (of_char c :: nat)
             in if n < 128 then [n] else [192 + n div 64, 128 + n mod 64])"

definition quote_char :: "char \<Rightarrow> string" where
  "quote_char c =
     (if is_alpha c \<or> is_digit c \<or> c \<in> set ''_.-~'' then [c]
      else if c = CHR '' '' then ''+''
      else concat (map (\<lambda>b. [CHR ''%'', hex_digit (b div 16), hex_digit b]) (utf8 c)))"

definition quote_plus :: "string \<Rightarrow> string" where
  "quote_plus s = concat (map quote_char s)"

fun join :: "string \<Rightarrow> string list \<Rightarrow> string" where
  "join sep [] = []"
| "join sep [x] = x"
| "join sep (x # y # ys) = x @ sep @ join sep (y # ys)"

definition urlencode :: "(string \<times> string) list \<Rightarrow> string" where
  "urlencode query = join ''&'' (map (\<lambda>(k, v). quote_plus k @ ''='' @ quote_plus v) query)"

text \<open>
  \<open>make_path(*args, **kwargs)\<close>: the keyword arguments are an association list in the
  order of the dict, the values are strings. \<open>Inr None\<close> is the outcome "cannot
  generate"; \<open>Inl\<close> is an exception that leaves \<open>make_path\<close>.
\<close>

definition make_path ::
  "UrlRule \<Rightarrow> string list \<Rightarrow> (string \<times> string) list \<Rightarrow> error + string option" where
  "make_path rule args kwargs =
     (if args \<noteq> [] \<and> kwargs \<noteq> [] then Inr None
      else if args \<noteq> [] then
        (case percent_format
                (re_sub (matcher_of [Chr CHR ''{'', Plus in_Az, Chr CHR ''}''])
                   (\<lambda>g. ''%s'') (pattern rule)) args of
           Inl e \<Rightarrow> (if e = TypeError then Inr None else Inl e)
         | Inr s \<Rightarrow> Inr (Some s))
      else
        (let url_kwargs = filter (\<lambda>(k, v). k \<in> set (keywords_list rule)) kwargs;
             qs_kwargs = filter (\<lambda>(k, v). k \<notin> set (keywords_list rule)) kwargs;
             query = (if qs_kwargs \<noteq> [] then ''?'' @ urlencode qs_kwargs else [])
         in case str_format (pattern rule) url_kwargs of
              Inl e \<Rightarrow> (if e = KeyError then Inr None else Inl e)
            | Inr s \<Rightarrow> Inr (Some (s @ query))))"

section \<open>Plugin\<close>

text \<open>
  A view function is known by its identity and its \<open>__name__\<close>. The dict \<open>_rules\<close> is
  an association list in insertion order. What a view function does when it is called
  belongs to the host: \<open>call f kwargs\<close> is \<open>None\<close> when it returns and \<open>Some x\<close> when
  it raises \<open>x\<close>. Logging is left out, and so are the fields \<open>path\<close>, \<open>handle\<close> and
  \<open>args\<close>, which the host fills from its argument list and which registration,
  \<open>url_for\<close> and \<open>_dispatch\<close> do not read.
\<close>

datatype handler = Handler (hid: nat) (hname: string)

record Plugin =
  rules :: "(handler \<times> UrlRule list) list"
  base_url :: string

definition Plugin_init :: "string \<Rightarrow> string option \<Rightarrow> Plugin" where
  \<comment> \<open>The first argument is \<open>ADDON_ID\<close>.\<close>
  "Plugin_init addon_id base =
     \<lparr>rules = [],
      base_url = (case base of None \<Rightarrow> ''plugin://'' @ addon_id | Some b \<Rightarrow> b)\<rparr>"


definition url_for_path :: "Plugin \<Rightarrow> string \<Rightarrow> string" where
  "url_for_path pl path =
     base_url pl @ (if startswith path ''/'' then path else ''/'' @ path)"

definition add_route :: "Plugin \<Rightarrow> handler \<Rightarrow> string \<Rightarrow> error + Plugin" where
  "add_route pl func pat =
     (case UrlRule_init pat of
        Inl e \<Rightarrow> Inl e
      | Inr rule \<Rightarrow>
          (let rs = (if map_of (rules pl) func = None then rules pl @ [(func, [])]
                     else rules pl)
           in Inr (pl\<lparr>rules :=
                 map (\<lambda>(f, l). if f = func then (f, l @ [rule]) else (f, l)) rs\<rparr>)))"

fun first_path ::
  "UrlRule list \<Rightarrow> string list \<Rightarrow> (string \<times> string) list \<Rightarrow> error + string option" where
  "first_path [] args kwargs = Inr None"
| "first_path (rule # rs) args kwargs =
     (case make_path rule args kwargs of
        Inl e \<Rightarrow> Inl e
      | Inr None \<Rightarrow> first_path rs args kwargs
      | Inr (Some path) \<Rightarrow> Inr (Some path))"

definition url_for ::
  "Plugin \<Rightarrow> handler \<Rightarrow> string list \<Rightarrow> (string \<times> string) list \<Rightarrow> error + string" where
  "url_for pl func args kwargs =
     (case (case map_of (rules pl) func of
              None \<Rightarrow> Inr None
            | Some rs \<Rightarrow> first_path rs args kwargs) of
        Inl e \<Rightarrow> Inl e
      | Inr (Some path) \<Rightarrow> Inr (url_for_path pl path)
      | Inr None \<Rightarrow> Inl (RoutingError (NoKnownPaths (hname func) args kwargs)))"

datatype 'x outcome = Returned | Raised error | HandlerRaised 'x

type_synonym call_log = "(handler \<times> (string \<times> string) list) list"

fun dispatch_rules ::
  "(handler \<Rightarrow> (string \<times> string) list \<Rightarrow> 'x option) \<Rightarrow> handler \<Rightarrow> UrlRule list \<Rightarrow> string
    \<Rightarrow> call_log \<Rightarrow> call_log \<times> 'x outcome option" where
  \<comment> \<open>The inner loop; \<open>None\<close> when the loop ends without a return.\<close>
  "dispatch_rules call view_func [] path calls = (calls, None)"
| "dispatch_rules call view_func (rule # rs) path calls =
     (case match rule path of
        None \<Rightarrow> dispatch_rules call view_func rs path calls
      | Some kwargs \<Rightarrow>
          (calls @ [(view_func, kwargs)],
           Some (case call view_func kwargs of None \<Rightarrow> Returned | Some x \<Rightarrow> HandlerRaised x)))"

fun dispatch_table ::
  "(handler \<Rightarrow> (string \<times> string) list \<Rightarrow> 'x option) \<Rightarrow> (handler \<times> UrlRule list) list \<Rightarrow> string
    \<Rightarrow> call_log \<Rightarrow> call_log \<times> 'x outcome" where
  "dispatch_table call [] path calls = (calls, Raised (RoutingError (NoRoute path)))"
| "dispatch_table call ((view_func, rs) # t) path calls =
     (case dispatch_rules call view_func rs path calls of
        (calls', None) \<Rightarrow> dispatch_table call t path calls'
      | (calls', Some out) \<Rightarrow> (calls', out))"

definition dispatch ::
  "(handler \<Rightarrow> (string \<times> string) list \<Rightarrow> 'x option) \<Rightarrow> Plugin \<Rightarrow> string
    \<Rightarrow> call_log \<times> 'x outcome" where
  \<comment> \<open>\<open>Plugin._dispatch\<close>: the first component lists the calls of view functions made,
      in order, the second says how \<open>_dispatch\<close> ended.\<close>
  "dispatch call pl path = dispatch_table call (rules pl) path []"

section \<open>Auxiliary notions for the statements\<close>

fun has_double_slash :: "string \<Rightarrow> bool" where
  "has_double_slash [] = False"
| "has_double_slash (c # cs) = ((c = CHR ''/'' \<and> startswith cs ''/'') \<or> has_double_slash cs)"

text \<open>The rules of the patterns used as examples.\<close>

definition show_rule :: UrlRule where
  "show_rule =
     \<lparr>pattern = ''/show/{id}'', keywords_list = [''id''],
      compiled_pattern = ''/show/(?P<id>[^/]+?)'',
      regex = [Lit CHR ''/'', Lit CHR ''s'', Lit CHR ''h'', Lit CHR ''o'', Lit CHR ''w'',
               Lit CHR ''/'', SegGroup ''id'']\<rparr>"

definition videos_rule :: UrlRule where
  "videos_rule =
     \<lparr>pattern = ''/videos/{name}'', keywords_list = [''name''],
      compiled_pattern = ''/videos/(?P<name>[^/]+?)'',
      regex = [Lit CHR ''/'', Lit CHR ''v'', Lit CHR ''i'', Lit CHR ''d'', Lit CHR ''e'',
               Lit CHR ''o'', Lit CHR ''s'', Lit CHR ''/'', SegGroup ''name'']\<rparr>"

definition videos_path_rule :: UrlRule where
  "videos_path_rule =
     \<lparr>pattern = ''/videos/{rest}'', keywords_list = [''rest''],
      compiled_pattern = ''/videos/(?P<rest>.*)'',
      regex = [Lit CHR ''/'', Lit CHR ''v'', Lit CHR ''i'', Lit CHR ''d'', Lit CHR ''e'',
               Lit CHR ''o'', Lit CHR ''s'', Lit CHR ''/'', PathGroup ''rest'']\<rparr>"



section \<open>The expressions of the compiler in closed form\<close>

text \<open>
  What the expressions of the compiler match, computed without backtracking. The
  theorems show that these functions agree with \<open>rx_exec\<close> on the expressions.
\<close>

definition name_then :: "char \<Rightarrow> string \<Rightarrow> (string \<times> nat) option" where
  \<comment> \<open>\<open>([A-z]+)c\<close> for a character \<open>c\<close> outside \<open>[A-z]\<close>: only the longest run can be
      followed by \<open>c\<close>, a shorter one is followed by a character of the class.\<close>
  "name_then c s =
     (let n = takeWhile in_Az s
      in if n \<noteq> [] \<and> startswith (dropWhile in_Az s) [c] then Some (n, length n + 1)
         else None)"

definition prefixed_name :: "string \<Rightarrow> char \<Rightarrow> matcher" where
  \<comment> \<open>The literal text \<open>p\<close>, then \<open>([A-z]+)c\<close>.\<close>
  "prefixed_name p c s =
     (if startswith s p
      then (case name_then c (drop (length p) s) of
              None \<Rightarrow> None
            | Some (g, k) \<Rightarrow> Some (g, length p + k))
      else None)"

definition kw_scan :: matcher where
  \<comment> \<open>\<open><(?:[^:]+:)?([A-z]+)>\<close>: the optional group takes the longest run without a colon
      (which may hold \<open><\<close>, \<open>>\<close> and \<open>/\<close>), and only that run can be followed by the
      colon; when the rest fails behind the group, the expression is tried without it.\<close>
  "kw_scan s =
     (if startswith s ''<''
      then (let r = tl s;
                pre = takeWhile (\<lambda>x. x \<noteq> CHR '':'') r;
                r1 = dropWhile (\<lambda>x. x \<noteq> CHR '':'') r
            in case (if pre \<noteq> [] \<and> r1 \<noteq> [] then name_then CHR ''>'' (tl r1) else None) of
                 Some (g, k) \<Rightarrow> Some (g, length pre + 2 + k)
               | None \<Rightarrow> prefixed_name ''<'' CHR ''>'' s)
      else None)"

section \<open>Patterns as sequences of pieces\<close>

text \<open>
  A pattern written in the pattern language is a sequence of pieces: literal text, a
  segment placeholder (\<open><string:name>\<close> when the flag is set, \<open><name>\<close> otherwise) or a
  path placeholder \<open><path:name>\<close>. \<open>render\<close> is the pattern string of a sequence.
\<close>

datatype piece = Text string | Segment bool string | Remainder string

fun render :: "piece list \<Rightarrow> string" where
  "render [] = []"
| "render (Text t # ps) = t @ render ps"
| "render (Segment True n # ps) = ''<string:'' @ n @ ''>'' @ render ps"
| "render (Segment False n # ps) = ''<'' @ n @ ''>'' @ render ps"
| "render (Remainder n # ps) = ''<path:'' @ n @ ''>'' @ render ps"

fun placeholder_names :: "piece list \<Rightarrow> string list" where
  "placeholder_names [] = []"
| "placeholder_names (Text t # ps) = placeholder_names ps"
| "placeholder_names (Segment b n # ps) = n # placeholder_names ps"
| "placeholder_names (Remainder n # ps) = n # placeholder_names ps"

definition plain_char :: "char \<Rightarrow> bool" where
  \<comment> \<open>Text that means itself to the pattern compiler, to \<open>re\<close> and to \<open>str.format\<close>.\<close>
  "plain_char c = (c \<notin> set ''<>:{}[()*+?^$|'' \<and> c \<noteq> CHR 0x5C)"

definition name_char :: "char \<Rightarrow> bool" where
  "name_char c = (is_alpha c \<or> c = CHR ''_'')"

definition good_name :: "string \<Rightarrow> bool" where
  "good_name n = (n \<noteq> [] \<and> list_all name_char n)"

fun good_piece :: "piece \<Rightarrow> bool" where
  "good_piece (Text t) = list_all plain_char t"
| "good_piece (Segment b n) = good_name n"
| "good_piece (Remainder n) = good_name n"

definition well_formed :: "piece list \<Rightarrow> bool" where
  "well_formed ps = (list_all good_piece ps \<and> distinct (placeholder_names ps))"

fun untyped :: "piece \<Rightarrow> bool" where
  "untyped (Text t) = True"
| "untyped (Segment b n) = (\<not> b)"
| "untyped (Remainder n) = False"

fun typed_first :: "piece list \<Rightarrow> bool" where
  \<comment> \<open>No placeholder without a type is followed, anywhere behind it, by one with a type.\<close>
  "typed_first [] = True"
| "typed_first (Segment False n # ps) = (list_all untyped ps \<and> typed_first ps)"
| "typed_first (p # ps) = typed_first ps"


definition value_of :: "(string \<times> string) list \<Rightarrow> string \<Rightarrow> string" where
  "value_of kwargs n = (case map_of kwargs n of None \<Rightarrow> [] | Some v \<Rightarrow> v)"

fun fill :: "(string \<times> string) list \<Rightarrow> piece list \<Rightarrow> string" where
  \<comment> \<open>The pattern with every placeholder replaced by its value.\<close>
  "fill kwargs [] = []"
| "fill kwargs (Text t # ps) = t @ fill kwargs ps"
| "fill kwargs (Segment b n # ps) = value_of kwargs n @ fill kwargs ps"
| "fill kwargs (Remainder n # ps) = value_of kwargs n @ fill kwargs ps"

definition segment_value :: "string \<Rightarrow> bool" where
  "segment_value v = (v \<noteq> [] \<and> CHR ''/'' \<notin> set v \<and> CHR 0x0A \<notin> set v)"


definition lit_item :: "char \<Rightarrow> item" where
  "lit_item c = (if c = CHR ''.'' then Dot else Lit c)"

fun items_of :: "piece list \<Rightarrow> item list" where
  "items_of [] = []"
| "items_of (Text t # ps) = map lit_item t @ items_of ps"
| "items_of (Segment b n # ps) = SegGroup n # items_of ps"
| "items_of (Remainder n # ps) = PathGroup n # items_of ps"

fun template_of :: "piece list \<Rightarrow> string" where
  "template_of [] = []"
| "template_of (Text t # ps) = t @ template_of ps"
| "template_of (Segment b n # ps) = ''{'' @ n @ ''}'' @ template_of ps"
| "template_of (Remainder n # ps) = ''{'' @ n @ ''}'' @ template_of ps"

fun regex_of :: "piece list \<Rightarrow> string" where
  "regex_of [] = []"
| "regex_of (Text t # ps) = t @ regex_of ps"
| "regex_of (Segment b n # ps) = ''(?P<'' @ n @ ''>[^/]+?)'' @ regex_of ps"
| "regex_of (Remainder n # ps) = ''(?P<'' @ n @ ''>.*)'' @ regex_of ps"

text \<open>The pattern after the first and after the second substitution of the compiler.\<close>

fun render_typed :: "piece list \<Rightarrow> string" where
  "render_typed [] = []"
| "render_typed (Text t # ps) = t @ render_typed ps"
| "render_typed (Segment b n # ps) = ''<string:'' @ n @ ''>'' @ render_typed ps"
| "render_typed (Remainder n # ps) = ''<path:'' @ n @ ''>'' @ render_typed ps"

fun render_groups :: "piece list \<Rightarrow> string" where
  "render_groups [] = []"
| "render_groups (Text t # ps) = t @ render_groups ps"
| "render_groups (Segment b n # ps) = ''(?P<'' @ n @ ''>[^/]+?)'' @ render_groups ps"
| "render_groups (Remainder n # ps) = ''<path:'' @ n @ ''>'' @ render_groups ps"

fun typed :: "piece \<Rightarrow> piece" where
  \<comment> \<open>The same placeholder, written with its type.\<close>
  "typed (Segment b n) = Segment True n"
| "typed p = p"

section \<open>The expressions in closed form\<close>

text \<open>
  A greedy run followed by a character outside its class matches in one way only, so the
  expressions of the compiler can be computed without search.
\<close>

lemma first_Some_longest:
  assumes "\<forall>k. 1 \<le> k \<and> k < n \<longrightarrow> f k = None"
  shows "first_Some f (rev [1 ..< Suc n]) = (if 1 \<le> n then f n else None)"
proof (cases "1 \<le> n")
  case False
  then show ?thesis by simp
next
  case True
  then have "rev [1 ..< Suc n] = n # rev [1 ..< n]" by simp
  moreover have "first_Some f (rev [1 ..< n]) = None"
    using assms by (induction n) auto
  ultimately show ?thesis using True by (simp split: option.splits)
qed

lemma drop_in_run:
  assumes "k < length (takeWhile P s)"
  shows "\<exists>x xs. drop k s = x # xs \<and> P x"
proof -
  have "s ! k = takeWhile P s ! k" using assms by (simp add: takeWhile_nth)
  moreover have "P (takeWhile P s ! k)" using assms by (metis nth_mem set_takeWhileD)
  moreover have "k < length s" using assms length_takeWhile_le [of P s] by simp
  ultimately show ?thesis by (metis Cons_nth_drop_Suc)
qed

lemma drop_run: "drop (length (takeWhile P s)) s = dropWhile P s"
  by (metis append_eq_conv_conj takeWhile_dropWhile_id)

lemma plus_then:
  assumes "\<forall>x xs pos'. P x \<longrightarrow> rx_exec r (x # xs) pos' start cap = None"
  shows "rx_exec (Plus P # r) s pos start cap =
           (if takeWhile P s \<noteq> []
            then rx_exec r (dropWhile P s) (pos + length (takeWhile P s)) start cap
            else None)"
proof -
  let ?n = "length (takeWhile P s)"
  let ?f = "\<lambda>k. rx_exec r (drop k s) (pos + k) start cap"
  have "\<forall>k. 1 \<le> k \<and> k < ?n \<longrightarrow> ?f k = None"
  proof (intro allI impI)
    fix k
    assume "1 \<le> k \<and> k < ?n"
    then obtain x xs where "drop k s = x # xs" "P x" using drop_in_run [of k P s] by blast
    with assms show "?f k = None" by simp
  qed
  from first_Some_longest [of ?n ?f, OF this]
  have "rx_exec (Plus P # r) s pos start cap = (if 1 \<le> ?n then ?f ?n else None)" by simp
  moreover have "1 \<le> ?n \<longleftrightarrow> takeWhile P s \<noteq> []" by (cases "takeWhile P s") simp_all
  ultimately show ?thesis by (simp add: drop_run)
qed

lemma rx_exec_chars:
  "rx_exec (map Chr p @ r) s pos start cap =
     (if startswith s p then rx_exec r (drop (length p) s) (pos + length p) start cap else None)"
proof (induction p arbitrary: s pos)
  case Nil
  then show ?case by (simp add: startswith_def)
next
  case (Cons c p)
  then show ?case by (cases s) (auto simp: startswith_def)
qed

lemma exec_name_group:
  assumes "\<not> in_Az c"
  shows "rx_exec [GroupStart, Plus in_Az, GroupEnd, Chr c] s pos start cap =
           (if takeWhile in_Az s \<noteq> [] \<and> startswith (dropWhile in_Az s) [c]
            then Some (Some (pos, pos + length (takeWhile in_Az s)),
                       pos + length (takeWhile in_Az s) + 1)
            else None)"
proof -
  have fail: "\<forall>x xs pos'. in_Az x \<longrightarrow> rx_exec [GroupEnd, Chr c] (x # xs) pos' (Some pos) cap = None"
    using assms by auto
  have "rx_exec [GroupStart, Plus in_Az, GroupEnd, Chr c] s pos start cap
      = rx_exec (Plus in_Az # [GroupEnd, Chr c]) s pos (Some pos) cap"
    by (simp del: rx_exec.simps(3))
  also have "\<dots> = (if takeWhile in_Az s \<noteq> []
            then rx_exec [GroupEnd, Chr c] (dropWhile in_Az s) (pos + length (takeWhile in_Az s))
                   (Some pos) cap
            else None)"
    by (rule plus_then [OF fail])
  also have "\<dots> = (if takeWhile in_Az s \<noteq> [] \<and> startswith (dropWhile in_Az s) [c]
            then Some (Some (pos, pos + length (takeWhile in_Az s)),
                       pos + length (takeWhile in_Az s) + 1)
            else None)"
    by (cases "dropWhile in_Az s") (simp_all add: startswith_def del: dropWhile_eq_Nil_conv)
  finally show ?thesis .
qed

lemma matcher_prefixed:
  assumes "\<not> in_Az c"
  shows "matcher_of (map Chr p @ name_group @ [Chr c]) s = prefixed_name p c s"
proof (cases "startswith s p")
  case False
  then show ?thesis by (simp add: matcher_of_def rx_exec_chars prefixed_name_def)
next
  case True
  have grp: "take (length (takeWhile in_Az (drop (length p) s))) (drop (length p) s)
      = takeWhile in_Az (drop (length p) s)"
    by (metis append_eq_conv_conj takeWhile_dropWhile_id)
  have "rx_exec (map Chr p @ name_group @ [Chr c]) s 0 None None
      = rx_exec [GroupStart, Plus in_Az, GroupEnd, Chr c] (drop (length p) s) (length p) None None"
    using True by (simp only: rx_exec_chars name_group_def) simp
  then show ?thesis
    using True
    by (simp add: matcher_of_def exec_name_group [OF assms] prefixed_name_def name_then_def grp
        Let_def del: rx_exec.simps)
qed

lemma not_Az: "\<not> in_Az CHR ''>''" "\<not> in_Az CHR '':''" "\<not> in_Az CHR ''}''"
  by (simp_all add: in_Az_def)

lemma matcher_kw: "matcher_of kw_pattern s = kw_scan s"
proof (cases s)
  case Nil
  then show ?thesis by (simp add: matcher_of_def kw_pattern_def name_group_def kw_scan_def startswith_def)
next
  case (Cons x r)
  show ?thesis
  proof (cases "x = CHR ''<''")
    case False
    with Cons show ?thesis by (simp add: matcher_of_def kw_pattern_def name_group_def kw_scan_def startswith_def)
  next
    case True
    let ?P = "\<lambda>x. x \<noteq> CHR '':''"
    let ?name = "[GroupStart, Plus in_Az, GroupEnd, Chr CHR ''>'']"
    let ?pre = "takeWhile ?P r"
    let ?r1 = "dropWhile ?P r"
    have fail: "\<forall>x xs pos'. ?P x \<longrightarrow> rx_exec (Chr CHR '':'' # ?name) (x # xs) pos' None None = None"
      by auto
    have colon: "?r1 \<noteq> [] \<Longrightarrow> ?r1 = CHR '':'' # tl ?r1"
      using hd_dropWhile [of ?P r] by (cases ?r1) auto
    have with_type: "rx_exec ([Plus ?P, Chr CHR '':''] @ ?name) r (Suc 0) None None =
        (if ?pre \<noteq> [] \<and> ?r1 \<noteq> []
         then rx_exec ?name (tl ?r1) (length ?pre + 2) None None else None)"
    proof -
      have "rx_exec ([Plus ?P, Chr CHR '':''] @ ?name) r (Suc 0) None None
          = rx_exec (Plus ?P # Chr CHR '':'' # ?name) r (Suc 0) None None" by simp
      also have "\<dots> = (if ?pre \<noteq> []
          then rx_exec (Chr CHR '':'' # ?name) ?r1 (Suc 0 + length ?pre) None None else None)"
        by (rule plus_then [OF fail])
      also have "\<dots> = (if ?pre \<noteq> [] \<and> ?r1 \<noteq> []
         then rx_exec ?name (tl ?r1) (length ?pre + 2) None None else None)"
      proof (cases "?r1 = []")
        case True
        then show ?thesis by (simp del: rx_exec.simps(3) dropWhile_eq_Nil_conv)
      next
        case False
        with colon obtain t where t: "?r1 = CHR '':'' # t" by blast
        then show ?thesis by (simp del: rx_exec.simps(3) dropWhile_eq_Nil_conv)
      qed
      finally show ?thesis .
    qed
    have grp: "take (length (takeWhile in_Az u)) u = takeWhile in_Az u" for u
      by (metis append_eq_conv_conj takeWhile_dropWhile_id)
    have r1: "drop (Suc (length ?pre)) r = tl ?r1"
      by (metis drop_Suc drop_run tl_drop)
    have full: "rx_exec kw_pattern s 0 None None =
        (case rx_exec ([Plus ?P, Chr CHR '':''] @ ?name) r (Suc 0) None None of
           Some m \<Rightarrow> Some m
         | None \<Rightarrow> rx_exec ?name r (Suc 0) None None)"
      using Cons True by (simp add: kw_pattern_def name_group_def del: rx_exec.simps(3))
    show ?thesis
      unfolding matcher_of_def full with_type exec_name_group [OF not_Az(1)]
      using Cons True
      by (simp add: kw_scan_def prefixed_name_def name_then_def
          startswith_def grp r1 Let_def del: rx_exec.simps dropWhile_eq_Nil_conv)
  qed
qed

lemma UrlRule_init_closed:
  "UrlRule_init pattern0 =
     (let pat = rstrip CHR ''/'' pattern0;
          tmpl = re_sub kw_scan (\<lambda>g. ''{'' @ g @ ''}'') pat;
          kws = re_findall kw_scan pat;
          p1 = re_sub (prefixed_name ''<'' CHR ''>'') (\<lambda>g. ''<string:'' @ g @ ''>'') pat;
          p2 = re_sub (prefixed_name ''<string:'' CHR ''>'') (\<lambda>g. ''(?P<'' @ g @ ''>[^/]+?)'') p1;
          p3 = re_sub (prefixed_name ''<path:'' CHR ''>'') (\<lambda>g. ''(?P<'' @ g @ ''>.*)'') p2
      in case re_compile (''^'' @ p3 @ ''$'') of
           Inl e \<Rightarrow> Inl e
         | Inr items \<Rightarrow>
             Inr \<lparr>pattern = tmpl, keywords_list = kws, compiled_pattern = p3, regex = items\<rparr>)"
proof -
  have kw: "matcher_of kw_pattern = kw_scan"
    by (rule ext) (rule matcher_kw)
  have pre: "matcher_of (map Chr p @ name_group @ [Chr CHR ''>'']) = prefixed_name p CHR ''>''" for p
    by (rule ext) (rule matcher_prefixed [OF not_Az(1)])
  show ?thesis
    unfolding UrlRule_init_def kw pre ..
qed

section \<open>Evaluation\<close>

lemmas eval_defs = UrlRule_init_closed rstrip_def kw_scan_def prefixed_name_def name_then_def
  startswith_def in_Az_def re_compile_def match_def isidentifier_def is_alpha_def is_ascii_def
  is_digit_def re_special_def make_path_def urlencode_def quote_plus_def quote_char_def
  hex_digit_def utf8_def url_for_def url_for_path_def add_route_def Plugin_init_def dispatch_def
  Let_def

lemmas piece_defs = well_formed_def good_name_def name_char_def plain_char_def is_alpha_def
  segment_value_def value_of_def startswith_def




section \<open>Trailing slashes\<close>

lemma dropWhile_replicate_append:
  "dropWhile (\<lambda>x. x = c) (replicate n c @ s) = dropWhile (\<lambda>x. x = c) s"
  by (induction n) simp_all

lemma rstrip_append_replicate: "rstrip c (s @ replicate n c) = rstrip c s"
  by (simp add: rstrip_def dropWhile_replicate_append)

lemma rstrip_id: "s = [] \<or> last s \<noteq> c \<Longrightarrow> rstrip c s = s"
  by (cases s rule: rev_cases) (auto simp: rstrip_def)

lemma rstrip_idem: "rstrip c (rstrip c s) = rstrip c s"
  by (simp add: rstrip_def dropWhile_idem)

lemma UrlRule_init_rstrip: "UrlRule_init (rstrip CHR ''/'' s) = UrlRule_init s"
  by (simp add: UrlRule_init_def rstrip_idem)

text \<open>
  C8, as stated, fails: the pattern \<open>/a//\<close> ends in two slashes and is compiled as
  \<open>/a\<close>; stripping a single slash would leave \<open>/a/\<close>.
\<close>

theorem strip_single_counterexample:
  "UrlRule_init ''/a//'' =
     Inr \<lparr>pattern = ''/a'', keywords_list = [], compiled_pattern = ''/a'',
          regex = [Lit CHR ''/'', Lit CHR ''a'']\<rparr>
   \<and> rstrip CHR ''/'' ''/a//'' \<noteq> butlast ''/a//''"
  by (simp add: eval_defs)

text \<open>
  C8, amended: compilation strips every trailing \<open>/\<close>. A pattern that is a string \<open>s\<close>
  not ending in \<open>/\<close>, followed by any number of slashes, is compiled as \<open>s\<close> is: one
  trailing slash is lost when there is one, all of them when there are several.
\<close>

theorem strip_all_trailing:
  "s = [] \<or> last s \<noteq> CHR ''/'' \<Longrightarrow>
     rstrip CHR ''/'' (s @ replicate n CHR ''/'') = s
     \<and> UrlRule_init (s @ replicate n CHR ''/'') = UrlRule_init s"
  using UrlRule_init_rstrip [of "s @ replicate n CHR ''/''"]
  by (simp add: rstrip_append_replicate rstrip_id)

theorem strip_all_trailing_witness:
  "(''/a'' = [] \<or> last ''/a'' \<noteq> CHR ''/'') \<and> rstrip CHR ''/'' ''/a//'' = ''/a''
   \<and> UrlRule_init ''/a//'' = UrlRule_init ''/a''"
  using strip_all_trailing [of "''/a''" 2] by (simp add: numeral_2_eq_2)

section \<open>url_for_path\<close>

text \<open>
  C9, as stated, fails: for the path \<open>//a\<close> the part of the result behind the base URL
  is \<open>//a\<close>, which has two leading slashes.
\<close>

theorem url_for_path_counterexample:
  "url_for_path \<lparr>rules = [], base_url = ''plugin://x''\<rparr> ''//a'' = ''plugin://x//a''
   \<and> has_double_slash
        (drop (length ''plugin://x'')
           (url_for_path \<lparr>rules = [], base_url = ''plugin://x''\<rparr> ''//a''))"
  by (simp add: url_for_path_def startswith_def)

text \<open>
  C9, amended: \<open>url_for_path\<close> returns the base URL followed by the path, with a \<open>/\<close>
  put in front of the path when it does not start with one. The part behind the base URL
  starts with \<open>/\<close>, and it has no double slash when the path has none.
\<close>

theorem url_for_path_leading_slash:
  "url_for_path pl path = base_url pl @ (if startswith path ''/'' then path else ''/'' @ path)
   \<and> startswith (drop (length (base_url pl)) (url_for_path pl path)) ''/''
   \<and> (\<not> has_double_slash path \<longrightarrow>
        \<not> has_double_slash (drop (length (base_url pl)) (url_for_path pl path)))"
  by (cases path) (auto simp: url_for_path_def startswith_def)

theorem url_for_path_leading_slash_witness:
  "\<not> has_double_slash ''a/b'' \<and>
   url_for_path \<lparr>rules = [], base_url = ''plugin://x''\<rparr> ''a/b'' = ''plugin://x/a/b''
   \<and> \<not> has_double_slash
        (drop (length ''plugin://x'')
           (url_for_path \<lparr>rules = [], base_url = ''plugin://x''\<rparr> ''a/b''))"
  using url_for_path_leading_slash [of "\<lparr>rules = [], base_url = ''plugin://x''\<rparr>" "''a/b''"]
  by (simp add: startswith_def)

section \<open>make_path with both kinds of arguments\<close>



section \<open>Dispatch\<close>

lemma dispatch_rules_None:
  "\<forall>r\<in>set rs. match r path = None \<Longrightarrow> dispatch_rules call f rs path calls = (calls, None)"
  by (induction rs) simp_all

lemma dispatch_rules_Some:
  "dispatch_rules call f rs path calls = (calls', Some out) \<Longrightarrow>
     length calls' = Suc (length calls) \<and> (\<exists>rule\<in>set rs. match rule path \<noteq> None)"
  by (induction rs) (auto split: option.splits)

lemma dispatch_rules_unchanged:
  "dispatch_rules call f rs path calls = (calls', None) \<Longrightarrow>
     calls' = calls \<and> (\<forall>r\<in>set rs. match r path = None)"
  by (induction rs) (auto split: option.splits)

lemma dispatch_table_no_match:
  "\<forall>(f, rs)\<in>set t. \<forall>r\<in>set rs. match r path = None \<Longrightarrow>
     dispatch_table call t path calls = (calls, Raised (RoutingError (NoRoute path)))"
  by (induction t) (auto simp: dispatch_rules_None)

lemma dispatch_table_length:
  "length (fst (dispatch_table call t path calls)) \<le> Suc (length calls)"
proof (induction t)
  case Nil
  then show ?case by simp
next
  case (Cons a t)
  obtain f rs where a: "a = (f, rs)" by (cases a)
  obtain calls' r where d: "dispatch_rules call f rs path calls = (calls', r)"
    by (cases "dispatch_rules call f rs path calls")
  show ?case
  proof (cases r)
    case None
    with d dispatch_rules_unchanged [of call f rs path calls calls'] Cons a
    show ?thesis by simp
  next
    case (Some out)
    with d dispatch_rules_Some [of call f rs path calls calls' out] a
    show ?thesis by simp
  qed
qed

lemma dispatch_table_match:
  "\<exists>(f, rs)\<in>set t. \<exists>r\<in>set rs. match r path \<noteq> None \<Longrightarrow>
     length (fst (dispatch_table call t path calls)) = Suc (length calls)"
proof (induction t)
  case Nil
  then show ?case by simp
next
  case (Cons a t)
  obtain f rs where a: "a = (f, rs)" by (cases a)
  obtain calls' r where d: "dispatch_rules call f rs path calls = (calls', r)"
    by (cases "dispatch_rules call f rs path calls")
  show ?case
  proof (cases r)
    case None
    with d dispatch_rules_unchanged [of call f rs path calls calls']
    have same: "calls' = calls" and none: "\<forall>r\<in>set rs. match r path = None" by simp_all
    with Cons.prems a have "\<exists>(f, rs)\<in>set t. \<exists>r\<in>set rs. match r path \<noteq> None"
      by auto
    with Cons.IH None d a same show ?thesis by simp
  next
    case (Some out)
    with d dispatch_rules_Some [of call f rs path calls calls' out] a
    show ?thesis by simp
  qed
qed

text \<open>
  C3: when the path matches no rule of any view function, \<open>_dispatch\<close> calls no view
  function and raises a RoutingError; when some rule matches, exactly one view function
  is called; in every case at most one is called.
\<close>

theorem dispatch_no_route:
  "((\<forall>(f, rs)\<in>set (rules pl). \<forall>r\<in>set rs. match r path = None) \<longrightarrow>
      dispatch call pl path = ([], Raised (RoutingError (NoRoute path))))
   \<and> ((\<exists>(f, rs)\<in>set (rules pl). \<exists>r\<in>set rs. match r path \<noteq> None) \<longrightarrow>
      length (fst (dispatch call pl path)) = 1)
   \<and> length (fst (dispatch call pl path)) \<le> 1"
  using dispatch_table_no_match [of "rules pl" path call "[]"]
    dispatch_table_match [of "rules pl" path call "[]"]
    dispatch_table_length [of call "rules pl" path "[]"]
  by (simp add: dispatch_def)

theorem dispatch_no_route_witness:
  "list_all (\<lambda>(f, rs). list_all (\<lambda>r. match r ''/other'' = None) rs)
      (rules \<lparr>rules = [(Handler 0 ''show'', [show_rule])], base_url = ''plugin://x''\<rparr>)
   \<and> dispatch (\<lambda>f kwargs. (None :: unit option))
        \<lparr>rules = [(Handler 0 ''show'', [show_rule])], base_url = ''plugin://x''\<rparr> ''/other''
      = ([], Raised (RoutingError (NoRoute ''/other'')))
   \<and> (\<exists>(f, rs)\<in>set (rules \<lparr>rules = [(Handler 0 ''show'', [show_rule])], base_url = ''plugin://x''\<rparr>).
      \<exists>r\<in>set rs. match r ''/show/42'' \<noteq> None)
   \<and> length (fst (dispatch (\<lambda>f kwargs. (None :: unit option))
        \<lparr>rules = [(Handler 0 ''show'', [show_rule])], base_url = ''plugin://x''\<rparr> ''/show/42'')) = 1"
  using dispatch_no_route [of "\<lparr>rules = [(Handler 0 ''show'', [show_rule])], base_url = ''plugin://x''\<rparr>"
      "''/other''" "\<lambda>f kwargs. (None :: unit option)"]
    dispatch_no_route [of "\<lparr>rules = [(Handler 0 ''show'', [show_rule])], base_url = ''plugin://x''\<rparr>"
      "''/show/42''" "\<lambda>f kwargs. (None :: unit option)"]
  by (simp add: show_rule_def match_def)

section \<open>url_for\<close>









section \<open>Patterns written in the pattern language\<close>

text \<open>
  The lemmas of this section compute what the compiler makes of the pattern of a
  sequence of pieces: the template, the list of keywords and the compiled expression.
\<close>

lemma name_char_in_Az: "name_char c \<Longrightarrow> in_Az c"
  by (auto simp: name_char_def is_alpha_def in_Az_def)

lemma name_char_facts:
  "name_char c \<Longrightarrow> c \<noteq> CHR ''<'' \<and> c \<noteq> CHR ''>'' \<and> c \<noteq> CHR '':'' \<and> c \<noteq> CHR ''{''
     \<and> c \<noteq> CHR ''}'' \<and> \<not> is_digit c \<and> is_ascii c \<and> c \<notin> set ''{!:.[]''"
  by (auto simp: name_char_def is_alpha_def is_digit_def is_ascii_def)

lemma plain_char_facts:
  "plain_char c \<Longrightarrow> c \<noteq> CHR ''<'' \<and> c \<noteq> CHR ''>'' \<and> c \<noteq> CHR '':'' \<and> c \<noteq> CHR ''{''
     \<and> c \<noteq> CHR ''}'' \<and> c \<noteq> CHR ''('' \<and> (c = CHR ''.'' \<or> \<not> re_special c)"
  by (auto simp: plain_char_def re_special_def)

lemma span_run:
  "list_all P n \<Longrightarrow> \<not> P c \<Longrightarrow> takeWhile P (n @ c # r) = n \<and> dropWhile P (n @ c # r) = c # r"
  by (induction n) simp_all

lemma span_all: "list_all P n \<Longrightarrow> takeWhile P n = n \<and> dropWhile P n = []"
  by (induction n) simp_all

lemma name_then_hit:
  "n \<noteq> [] \<Longrightarrow> list_all in_Az n \<Longrightarrow> \<not> in_Az c \<Longrightarrow> name_then c (n @ c # r) = Some (n, length n + 1)"
  by (simp add: name_then_def span_run startswith_def)

lemma name_then_miss:
  "list_all in_Az w \<Longrightarrow> \<not> in_Az d \<Longrightarrow> d \<noteq> c \<Longrightarrow> name_then c (w @ d # r) = None"
  by (simp add: name_then_def span_run startswith_def)

lemma re_sub_skip:
  "\<forall>c\<in>set u. \<forall>s. m (c # s) = None \<Longrightarrow> re_sub m repl (u @ r) = u @ re_sub m repl r"
  by (induction u) simp_all

lemma re_findall_skip:
  "\<forall>c\<in>set u. \<forall>s. m (c # s) = None \<Longrightarrow> re_findall m (u @ r) = re_findall m r"
  by (induction u) simp_all

lemma re_sub_hit:
  "m (c # s) = Some (g, Suc k) \<Longrightarrow> re_sub m repl (c # s) = repl g @ re_sub m repl (drop k s)"
  by simp

lemma re_findall_hit:
  "m (c # s) = Some (g, Suc k) \<Longrightarrow> re_findall m (c # s) = g # re_findall m (drop k s)"
  by simp

lemma prefixed_name_other:
  "p \<noteq> [] \<Longrightarrow> c \<noteq> hd p \<Longrightarrow> prefixed_name p d (c # s) = None"
  by (cases p) (simp_all add: prefixed_name_def startswith_def)

lemma kw_scan_other: "c \<noteq> CHR ''<'' \<Longrightarrow> kw_scan (c # s) = None"
  by (simp add: kw_scan_def startswith_def)


lemma re_sub_replace:
  "m (u @ r) = Some (g, length u) \<Longrightarrow> u \<noteq> [] \<Longrightarrow> re_sub m repl (u @ r) = repl g @ re_sub m repl r"
  by (cases u) simp_all

lemma re_findall_replace:
  "m (u @ r) = Some (g, length u) \<Longrightarrow> u \<noteq> [] \<Longrightarrow> re_findall m (u @ r) = g # re_findall m r"
  by (cases u) simp_all

lemma re_sub_keep:
  "m (c # u @ r) = None \<Longrightarrow> \<forall>x\<in>set u. \<forall>s. m (x # s) = None \<Longrightarrow>
     re_sub m repl (c # u @ r) = c # u @ re_sub m repl r"
  by (simp add: re_sub_skip)

lemma re_findall_keep:
  "m (c # u @ r) = None \<Longrightarrow> \<forall>x\<in>set u. \<forall>s. m (x # s) = None \<Longrightarrow>
     re_findall m (c # u @ r) = re_findall m r"
  by (simp add: re_findall_skip)

lemma good_name_Az: "good_name n \<Longrightarrow> n \<noteq> [] \<and> list_all in_Az n"
  by (auto simp: good_name_def list_all_iff name_char_in_Az)

lemma good_name_chars:
  "good_name n \<Longrightarrow> CHR ''<'' \<notin> set n \<and> CHR ''>'' \<notin> set n \<and> CHR '':'' \<notin> set n
     \<and> CHR ''{'' \<notin> set n \<and> CHR ''}'' \<notin> set n"
  using name_char_facts by (auto simp: good_name_def list_all_iff)

lemma kw_scan_typed:
  assumes "good_name n" "w \<noteq> []" "CHR '':'' \<notin> set w"
  shows "kw_scan ((CHR ''<'' # w @ '':'' @ n @ ''>'') @ r)
           = Some (n, length (CHR ''<'' # w @ '':'' @ n @ ''>''))"
proof -
  have w: "list_all (\<lambda>x. x \<noteq> CHR '':'') w"
    using assms(3) by (auto simp: list_all_iff)
  have run: "takeWhile (\<lambda>x. x \<noteq> CHR '':'') (w @ CHR '':'' # n @ CHR ''>'' # r) = w"
    "dropWhile (\<lambda>x. x \<noteq> CHR '':'') (w @ CHR '':'' # n @ CHR ''>'' # r) = CHR '':'' # n @ CHR ''>'' # r"
    using span_run [OF w, of "CHR '':''" "n @ CHR ''>'' # r"] by simp_all
  have nt: "name_then CHR ''>'' (n @ CHR ''>'' # r) = Some (n, length n + 1)"
    using good_name_Az [OF assms(1)] by (simp add: name_then_hit not_Az)
  show ?thesis
    using assms(2) by (simp add: kw_scan_def startswith_def run nt)
qed

lemma kw_scan_untyped:
  assumes "good_name n" "CHR '':'' \<notin> set r"
  shows "kw_scan ((''<'' @ n @ ''>'') @ r) = Some (n, length (''<'' @ n @ ''>''))"
proof -
  have "CHR '':'' \<notin> set (n @ CHR ''>'' # r)"
    using assms good_name_chars [OF assms(1)] by simp
  then have w: "list_all (\<lambda>x. x \<noteq> CHR '':'') (n @ CHR ''>'' # r)"
    by (auto simp: list_all_iff)
  have run: "dropWhile (\<lambda>x. x \<noteq> CHR '':'') (n @ CHR ''>'' # r) = []"
    using span_all [OF w] by simp
  have nt: "name_then CHR ''>'' (n @ CHR ''>'' # r) = Some (n, length n + 1)"
    using good_name_Az [OF assms(1)] by (simp add: name_then_hit not_Az)
  show ?thesis
    using assms(2) good_name_chars [OF assms(1)]
    by (simp add: kw_scan_def startswith_def run nt prefixed_name_def)
qed

lemma render_no_colon:
  "list_all good_piece ps \<Longrightarrow> list_all untyped ps \<Longrightarrow> CHR '':'' \<notin> set (render ps)"
proof (induction ps)
  case Nil
  then show ?case by simp
next
  case (Cons p ps)
  then show ?case
  proof (cases p)
    case (Text t)
    with Cons show ?thesis using plain_char_facts by (auto simp: list_all_iff)
  next
    case (Segment b n)
    with Cons show ?thesis using good_name_chars [of n] by auto
  next
    case (Remainder n)
    with Cons show ?thesis by simp
  qed
qed

lemma kw_skip_text:
  "list_all plain_char t \<Longrightarrow> \<forall>c\<in>set t. \<forall>s. kw_scan (c # s) = None"
  using plain_char_facts by (auto simp: list_all_iff kw_scan_other)

lemma template_of_render:
  "list_all good_piece ps \<Longrightarrow> typed_first ps \<Longrightarrow>
     re_sub kw_scan (\<lambda>g. ''{'' @ g @ ''}'') (render ps) = template_of ps
     \<and> re_findall kw_scan (render ps) = placeholder_names ps"
proof (induction ps)
  case Nil
  then show ?case by simp
next
  case (Cons p ps)
  show ?case
  proof (cases p)
    case (Text t)
    have skip: "\<forall>c\<in>set t. \<forall>s. kw_scan (c # s) = None"
      by (rule kw_skip_text) (use Cons.prems Text in simp)
    show ?thesis
      using Cons Text re_sub_skip [OF skip] re_findall_skip [OF skip] by simp
  next
    case (Segment b n)
    show ?thesis
    proof (cases b)
      case True
      have "kw_scan ((CHR ''<'' # ''string'' @ '':'' @ n @ ''>'') @ render ps)
           = Some (n, length (CHR ''<'' # ''string'' @ '':'' @ n @ ''>''))"
        using Cons.prems Segment by (intro kw_scan_typed) simp_all
      then have "kw_scan ((''<string:'' @ n @ ''>'') @ render ps)
           = Some (n, length (''<string:'' @ n @ ''>''))" by simp
      from re_sub_replace [of kw_scan "''<string:'' @ n @ ''>''" "render ps" n, OF this]
      re_findall_replace [of kw_scan "''<string:'' @ n @ ''>''" "render ps" n, OF this]
      show ?thesis using Cons Segment True by simp
    next
      case False
      have "CHR '':'' \<notin> set (render ps)"
        using Cons.prems Segment False by (simp add: render_no_colon)
      then have "kw_scan ((''<'' @ n @ ''>'') @ render ps) = Some (n, length (''<'' @ n @ ''>''))"
        using Cons.prems Segment by (intro kw_scan_untyped) simp_all
      from re_sub_replace [of kw_scan "''<'' @ n @ ''>''" "render ps" n, OF this]
      re_findall_replace [of kw_scan "''<'' @ n @ ''>''" "render ps" n, OF this]
      show ?thesis using Cons Segment False by simp
    qed
  next
    case (Remainder n)
    have "kw_scan ((CHR ''<'' # ''path'' @ '':'' @ n @ ''>'') @ render ps)
           = Some (n, length (CHR ''<'' # ''path'' @ '':'' @ n @ ''>''))"
      using Cons.prems Remainder by (intro kw_scan_typed) simp_all
    then have "kw_scan ((''<path:'' @ n @ ''>'') @ render ps)
           = Some (n, length (''<path:'' @ n @ ''>''))" by simp
    from re_sub_replace [of kw_scan "''<path:'' @ n @ ''>''" "render ps" n, OF this]
      re_findall_replace [of kw_scan "''<path:'' @ n @ ''>''" "render ps" n, OF this]
    show ?thesis using Cons Remainder by simp
  qed
qed


lemma startswith_run:
  assumes "startswith (n @ d # s) p" "d \<notin> set p"
  shows "set p \<subseteq> set n"
proof (cases "length p \<le> length n")
  case True
  with assms(1) have "take (length p) n = p" by (simp add: startswith_def)
  then show ?thesis using set_take_subset [of "length p" n] by simp
next
  case False
  then have "take (length p) (n @ d # s) = n @ d # take (length p - Suc (length n)) s"
    by (simp add: take_Cons')
  with assms(1) have "p = n @ d # take (length p - Suc (length n)) s"
    by (simp add: startswith_def)
  then have "d \<in> set p" by (metis in_set_conv_decomp)
  with assms(2) show ?thesis by simp
qed

lemma prefixed_skip_text:
  "list_all plain_char t \<Longrightarrow> \<forall>c\<in>set t. \<forall>s. prefixed_name (CHR ''<'' # p) d (c # s) = None"
  using plain_char_facts by (auto simp: list_all_iff prefixed_name_other)

lemma prefixed_skip_no_lt:
  assumes "CHR ''<'' \<notin> set u"
  shows "\<forall>c\<in>set u. \<forall>s. prefixed_name (CHR ''<'' # p) d (c # s) = None"
proof (intro ballI allI)
  fix c s
  assume "c \<in> set u"
  with assms have "c \<noteq> CHR ''<''" by auto
  then show "prefixed_name (CHR ''<'' # p) d (c # s) = None"
    by (simp add: prefixed_name_other)
qed

lemma prefixed_hit:
  assumes "good_name n"
  shows "prefixed_name p CHR ''>'' ((p @ n @ ''>'') @ r) = Some (n, length (p @ n @ ''>''))"
proof -
  have nt: "name_then CHR ''>'' (n @ CHR ''>'' # r) = Some (n, length n + 1)"
    using good_name_Az [OF assms] by (simp add: name_then_hit not_Az)
  show ?thesis by (simp add: prefixed_name_def startswith_def nt)
qed

subsection \<open>The first substitution: placeholders without a type\<close>

lemma sub1_typed:
  assumes "good_name n" "list_all in_Az w" "CHR ''<'' \<notin> set w"
  shows "re_sub (prefixed_name ''<'' CHR ''>'') repl ((CHR ''<'' # w @ '':'' @ n @ ''>'') @ r)
           = (CHR ''<'' # w @ '':'' @ n @ ''>'') @ re_sub (prefixed_name ''<'' CHR ''>'') repl r"
proof -
  have miss: "prefixed_name ''<'' CHR ''>'' (CHR ''<'' # (w @ '':'' @ n @ ''>'') @ r) = None"
    using name_then_miss [OF assms(2), of "CHR '':''" "CHR ''>''" "n @ ''>'' @ r"]
    by (simp add: prefixed_name_def startswith_def not_Az)
  have "CHR ''<'' \<notin> set (w @ '':'' @ n @ ''>'')"
    using assms(3) good_name_chars [OF assms(1)] by simp
  then have skip: "\<forall>x\<in>set (w @ '':'' @ n @ ''>''). \<forall>s. prefixed_name ''<'' CHR ''>'' (x # s) = None"
    by (rule prefixed_skip_no_lt)
  from re_sub_keep [of "prefixed_name ''<'' CHR ''>''" "CHR ''<''" "w @ '':'' @ n @ ''>''" r, OF miss skip]
  show ?thesis by simp
qed

lemma sub1_render:
  "list_all good_piece ps \<Longrightarrow>
     re_sub (prefixed_name ''<'' CHR ''>'') (\<lambda>g. ''<string:'' @ g @ ''>'') (render ps)
       = render_typed ps"
proof (induction ps)
  case Nil
  then show ?case by simp
next
  case (Cons p ps)
  show ?case
  proof (cases p)
    case (Text t)
    have skip: "\<forall>c\<in>set t. \<forall>s. prefixed_name ''<'' CHR ''>'' (c # s) = None"
      by (rule prefixed_skip_text) (use Cons.prems Text in simp)
    show ?thesis
      using Cons Text re_sub_skip [OF skip] by simp
  next
    case (Segment b n)
    show ?thesis
    proof (cases b)
      case True
      have "re_sub (prefixed_name ''<'' CHR ''>'') (\<lambda>g. ''<string:'' @ g @ ''>'')
              ((CHR ''<'' # ''string'' @ '':'' @ n @ ''>'') @ render ps)
            = (CHR ''<'' # ''string'' @ '':'' @ n @ ''>'')
                @ re_sub (prefixed_name ''<'' CHR ''>'') (\<lambda>g. ''<string:'' @ g @ ''>'') (render ps)"
        using Cons.prems Segment by (intro sub1_typed) (simp_all add: in_Az_def)
      then show ?thesis using Cons Segment True by simp
    next
      case False
      have "prefixed_name ''<'' CHR ''>'' ((''<'' @ n @ ''>'') @ render ps)
              = Some (n, length (''<'' @ n @ ''>''))"
        using Cons.prems Segment by (intro prefixed_hit) simp
      from re_sub_replace [of "prefixed_name ''<'' CHR ''>''" "''<'' @ n @ ''>''" "render ps" n, OF this]
      show ?thesis using Cons Segment False by simp
    qed
  next
    case (Remainder n)
    have "re_sub (prefixed_name ''<'' CHR ''>'') (\<lambda>g. ''<string:'' @ g @ ''>'')
              ((CHR ''<'' # ''path'' @ '':'' @ n @ ''>'') @ render ps)
            = (CHR ''<'' # ''path'' @ '':'' @ n @ ''>'')
                @ re_sub (prefixed_name ''<'' CHR ''>'') (\<lambda>g. ''<string:'' @ g @ ''>'') (render ps)"
      using Cons.prems Remainder by (intro sub1_typed) (simp_all add: in_Az_def)
    then show ?thesis using Cons Remainder by simp
  qed
qed

subsection \<open>The second substitution: segment placeholders\<close>

lemma sub2_render:
  "list_all good_piece ps \<Longrightarrow>
     re_sub (prefixed_name ''<string:'' CHR ''>'') (\<lambda>g. ''(?P<'' @ g @ ''>[^/]+?)'') (render_typed ps)
       = render_groups ps"
proof (induction ps)
  case Nil
  then show ?case by simp
next
  case (Cons p ps)
  show ?case
  proof (cases p)
    case (Text t)
    have skip: "\<forall>c\<in>set t. \<forall>s. prefixed_name ''<string:'' CHR ''>'' (c # s) = None"
      by (rule prefixed_skip_text) (use Cons.prems Text in simp)
    show ?thesis
      using Cons Text re_sub_skip [OF skip] by simp
  next
    case (Segment b n)
    have "prefixed_name ''<string:'' CHR ''>'' ((''<string:'' @ n @ ''>'') @ render_typed ps)
            = Some (n, length (''<string:'' @ n @ ''>''))"
      using Cons.prems Segment by (intro prefixed_hit) simp
    from re_sub_replace [of "prefixed_name ''<string:'' CHR ''>''" "''<string:'' @ n @ ''>''"
        "render_typed ps" n, OF this]
    show ?thesis using Cons Segment by simp
  next
    case (Remainder n)
    have miss: "prefixed_name ''<string:'' CHR ''>'' (CHR ''<'' # (''path:'' @ n @ ''>'') @ render_typed ps) = None"
      by (simp add: prefixed_name_def startswith_def)
    have "CHR ''<'' \<notin> set (''path:'' @ n @ ''>'')"
      using good_name_chars [of n] Cons.prems Remainder by simp
    then have skip: "\<forall>x\<in>set (''path:'' @ n @ ''>''). \<forall>s. prefixed_name ''<string:'' CHR ''>'' (x # s) = None"
      by (rule prefixed_skip_no_lt)
    from re_sub_keep [of "prefixed_name ''<string:'' CHR ''>''" "CHR ''<''" "''path:'' @ n @ ''>''"
        "render_typed ps", OF miss skip]
    show ?thesis using Cons Remainder by simp
  qed
qed

subsection \<open>The third substitution: path placeholders\<close>

lemma sub3_group:
  assumes "good_name n"
  shows "re_sub (prefixed_name ''<path:'' CHR ''>'') repl ((''(?P<'' @ n @ ''>[^/]+?)'') @ r)
           = (''(?P<'' @ n @ ''>[^/]+?)'') @ re_sub (prefixed_name ''<path:'' CHR ''>'') repl r"
proof -
  have "\<not> startswith (n @ CHR ''>'' # ''[^/]+?)'' @ r) ''path:''"
    using startswith_run [of n "CHR ''>''" "''[^/]+?)'' @ r" "''path:''"] good_name_chars [OF assms]
    by auto
  then have miss: "prefixed_name ''<path:'' CHR ''>'' (CHR ''<'' # (n @ ''>[^/]+?)'') @ r) = None"
    by (simp add: prefixed_name_def startswith_def)
  have "CHR ''<'' \<notin> set (n @ ''>[^/]+?)'')"
    using good_name_chars [OF assms] by simp
  then have skip: "\<forall>x\<in>set (n @ ''>[^/]+?)''). \<forall>s. prefixed_name ''<path:'' CHR ''>'' (x # s) = None"
    by (rule prefixed_skip_no_lt)
  have inner: "re_sub (prefixed_name ''<path:'' CHR ''>'') repl (CHR ''<'' # (n @ ''>[^/]+?)'') @ r)
      = CHR ''<'' # (n @ ''>[^/]+?)'') @ re_sub (prefixed_name ''<path:'' CHR ''>'') repl r"
    by (rule re_sub_keep [OF miss skip])
  have "re_sub (prefixed_name ''<path:'' CHR ''>'') repl (''(?P'' @ (CHR ''<'' # (n @ ''>[^/]+?)'') @ r))
      = ''(?P'' @ re_sub (prefixed_name ''<path:'' CHR ''>'') repl (CHR ''<'' # (n @ ''>[^/]+?)'') @ r)"
    by (rule re_sub_skip) (simp add: prefixed_name_other)
  with inner show ?thesis by simp
qed

lemma sub3_render:
  "list_all good_piece ps \<Longrightarrow>
     re_sub (prefixed_name ''<path:'' CHR ''>'') (\<lambda>g. ''(?P<'' @ g @ ''>.*)'') (render_groups ps)
       = regex_of ps"
proof (induction ps)
  case Nil
  then show ?case by simp
next
  case (Cons p ps)
  show ?case
  proof (cases p)
    case (Text t)
    have skip: "\<forall>c\<in>set t. \<forall>s. prefixed_name ''<path:'' CHR ''>'' (c # s) = None"
      by (rule prefixed_skip_text) (use Cons.prems Text in simp)
    show ?thesis
      using Cons Text re_sub_skip [OF skip] by simp
  next
    case (Segment b n)
    then show ?thesis
      using Cons sub3_group [of n "\<lambda>g. ''(?P<'' @ g @ ''>.*)''" "render_groups ps"] by simp
  next
    case (Remainder n)
    have "prefixed_name ''<path:'' CHR ''>'' ((''<path:'' @ n @ ''>'') @ render_groups ps)
            = Some (n, length (''<path:'' @ n @ ''>''))"
      using Cons.prems Remainder by (intro prefixed_hit) simp
    from re_sub_replace [of "prefixed_name ''<path:'' CHR ''>''" "''<path:'' @ n @ ''>''"
        "render_groups ps" n, OF this]
    show ?thesis using Cons Remainder by simp
  qed
qed


subsection \<open>Compilation of the expression\<close>

lemma cons_append_ok: "cons_ok x (append_ok xs r) = append_ok (x # xs) r"
  by (cases r) simp_all

lemma parse_text:
  "list_all plain_char t \<Longrightarrow> parse_items (t @ r) = append_ok (map lit_item t) (parse_items r)"
proof (induction t)
  case Nil
  show ?case by (cases "parse_items r") simp_all
next
  case (Cons c t)
  then have "plain_char c" by simp
  from plain_char_facts [OF this] Cons show ?case
    by (auto simp: lit_item_def cons_append_ok)
qed

lemma good_name_identifier: "good_name n \<Longrightarrow> isidentifier n \<and> list_all is_ascii n"
  using name_char_facts
  by (cases n) (auto simp: good_name_def isidentifier_def name_char_def list_all_iff)

lemma parse_group:
  assumes "good_name n"
  shows "parse_items ((''(?P<'' @ n @ ''>[^/]+?)'') @ r) = cons_ok (SegGroup n) (parse_items r)"
    and "parse_items ((''(?P<'' @ n @ ''>.*)'') @ r) = cons_ok (PathGroup n) (parse_items r)"
proof -
  have n: "list_all (\<lambda>x. x \<noteq> CHR ''>'') n"
    using good_name_chars [OF assms] by (auto simp: list_all_iff)
  have run: "takeWhile (\<lambda>x. x \<noteq> CHR ''>'') (n @ CHR ''>'' # s) = n"
    "dropWhile (\<lambda>x. x \<noteq> CHR ''>'') (n @ CHR ''>'' # s) = CHR ''>'' # s" for s
    using span_run [OF n, of "CHR ''>''" s] by simp_all
  show "parse_items ((''(?P<'' @ n @ ''>[^/]+?)'') @ r) = cons_ok (SegGroup n) (parse_items r)"
    using good_name_identifier [OF assms] by (simp add: startswith_def run)
  show "parse_items ((''(?P<'' @ n @ ''>.*)'') @ r) = cons_ok (PathGroup n) (parse_items r)"
    using good_name_identifier [OF assms] by (simp add: startswith_def run)
qed

lemma parse_regex_of: "list_all good_piece ps \<Longrightarrow> parse_items (regex_of ps) = Inr (items_of ps)"
proof (induction ps)
  case Nil
  then show ?case by simp
next
  case (Cons p ps)
  then show ?case
  proof (cases p)
    case (Text t)
    with Cons show ?thesis by (simp add: parse_text)
  next
    case (Segment b n)
    with Cons parse_group(1) [of n "regex_of ps"] show ?thesis by simp
  next
    case (Remainder n)
    with Cons parse_group(2) [of n "regex_of ps"] show ?thesis by simp
  qed
qed

lemma group_names_text: "group_names (map lit_item t @ r) = group_names r"
  by (induction t) (simp_all add: lit_item_def)

lemma group_names_items: "group_names (items_of ps) = placeholder_names ps"
proof (induction ps)
  case Nil
  then show ?case by simp
next
  case (Cons p ps)
  then show ?case by (cases p) (simp_all add: group_names_text)
qed

lemma compile_regex_of:
  "well_formed ps \<Longrightarrow> re_compile (''^'' @ regex_of ps @ ''$'') = Inr (items_of ps)"
  by (simp add: re_compile_def well_formed_def parse_regex_of group_names_items)

lemma init_render_regex:
  assumes "well_formed ps" "render ps = [] \<or> last (render ps) \<noteq> CHR ''/''"
  shows "UrlRule_init (render ps) =
           Inr \<lparr>pattern = re_sub kw_scan (\<lambda>g. ''{'' @ g @ ''}'') (render ps),
                keywords_list = re_findall kw_scan (render ps),
                compiled_pattern = regex_of ps, regex = items_of ps\<rparr>"
proof -
  have gp: "list_all good_piece ps" using assms(1) by (simp add: well_formed_def)
  have strip: "rstrip CHR ''/'' (render ps) = render ps"
    using assms(2) by (rule rstrip_id)
  show ?thesis
    unfolding UrlRule_init_closed Let_def strip
      sub1_render [OF gp] sub2_render [OF gp] sub3_render [OF gp] compile_regex_of [OF assms(1)]
    by simp
qed

lemma init_render:
  assumes "well_formed ps" "typed_first ps" "render ps = [] \<or> last (render ps) \<noteq> CHR ''/''"
  shows "UrlRule_init (render ps) =
           Inr \<lparr>pattern = template_of ps, keywords_list = placeholder_names ps,
                compiled_pattern = regex_of ps, regex = items_of ps\<rparr>"
proof -
  have gp: "list_all good_piece ps" using assms(1) by (simp add: well_formed_def)
  show ?thesis
    using init_render_regex [OF assms(1,3)] template_of_render [OF gp assms(2)] by simp
qed


subsection \<open>Filling the template\<close>

lemma format_text:
  "list_all plain_char t \<Longrightarrow> str_format (t @ r) kw = append_ok t (str_format r kw)"
proof (induction t)
  case Nil
  show ?case by (cases "str_format r kw") simp_all
next
  case (Cons c t)
  then have "plain_char c" by simp
  from plain_char_facts [OF this] Cons show ?case
    by (auto simp: cons_append_ok)
qed

lemma format_field:
  assumes "good_name n"
  shows "str_format ((''{'' @ n @ ''}'') @ r) kw =
           (case map_of kw n of None \<Rightarrow> Inl KeyError | Some v \<Rightarrow> append_ok v (str_format r kw))"
proof -
  obtain c cs where n: "n = c # cs" using assms by (cases n) (auto simp: good_name_def)
  have c: "name_char c" using assms n by (simp add: good_name_def)
  have nb: "list_all (\<lambda>x. x \<noteq> CHR ''}'') n"
    using good_name_chars [OF assms] by (auto simp: list_all_iff)
  have run: "takeWhile (\<lambda>x. x \<noteq> CHR ''}'') (n @ CHR ''}'' # r) = n"
    "dropWhile (\<lambda>x. x \<noteq> CHR ''}'') (n @ CHR ''}'' # r) = CHR ''}'' # r"
    using span_run [OF nb, of "CHR ''}''" r] by simp_all
  have ex: "\<not> list_ex (\<lambda>x. x \<in> set ''{!:.[]'') n"
    using assms name_char_facts unfolding good_name_def list_ex_iff list_all_iff by blast
  have dig: "\<not> list_all is_digit n"
    using name_char_facts [OF c] n by simp
  have st: "\<not> startswith (n @ CHR ''}'' # r) ''{''"
    using name_char_facts [OF c] n by (simp add: startswith_def)
  have "str_format (CHR ''{'' # (n @ CHR ''}'' # r)) kw =
           (case map_of kw n of None \<Rightarrow> Inl KeyError | Some v \<Rightarrow> append_ok v (str_format r kw))"
    unfolding str_format.simps(2) [of "CHR ''{''" "n @ CHR ''}'' # r" kw] Let_def run
    using st ex dig by (simp split: option.splits)
  then show ?thesis by simp
qed

lemma map_of_filter_keys:
  "map_of (filter (\<lambda>(k, v). k \<in> S) kw) n = (if n \<in> S then map_of kw n else None)"
  by (induction kw) auto

lemma value_of_filter:
  "n \<in> S \<Longrightarrow> value_of (filter (\<lambda>(k, v). k \<in> S) kw) n = value_of kw n"
  by (simp add: value_of_def map_of_filter_keys)

lemma fill_cong:
  "\<forall>n\<in>set (placeholder_names ps). value_of kw n = value_of kw' n \<Longrightarrow> fill kw ps = fill kw' ps"
proof (induction ps)
  case Nil
  then show ?case by simp
next
  case (Cons p ps)
  then show ?case by (cases p) simp_all
qed

lemma format_template:
  "list_all good_piece ps \<Longrightarrow> set (placeholder_names ps) \<subseteq> fst ` set kw \<Longrightarrow>
     str_format (template_of ps) kw = Inr (fill kw ps)"
proof (induction ps)
  case Nil
  then show ?case by simp
next
  case (Cons p ps)
  show ?case
  proof (cases p)
    case (Text t)
    with Cons show ?thesis by (simp add: format_text)
  next
    case (Segment b n)
    with Cons.prems obtain v where "map_of kw n = Some v"
      by (cases "map_of kw n") (auto simp: map_of_eq_None_iff)
    with Cons Segment format_field [of n "template_of ps" kw] show ?thesis
      by (simp add: value_of_def)
  next
    case (Remainder n)
    with Cons.prems obtain v where "map_of kw n = Some v"
      by (cases "map_of kw n") (auto simp: map_of_eq_None_iff)
    with Cons Remainder format_field [of n "template_of ps" kw] show ?thesis
      by (simp add: value_of_def)
  qed
qed

lemma format_template_missing:
  "list_all good_piece ps \<Longrightarrow> \<not> set (placeholder_names ps) \<subseteq> fst ` set kw \<Longrightarrow>
     str_format (template_of ps) kw = Inl KeyError"
proof (induction ps)
  case Nil
  then show ?case by simp
next
  case (Cons p ps)
  show ?case
  proof (cases p)
    case (Text t)
    with Cons show ?thesis by (simp add: format_text)
  next
    case (Segment b n)
    show ?thesis
    proof (cases "map_of kw n")
      case None
      with Cons.prems Segment format_field [of n "template_of ps" kw] show ?thesis by simp
    next
      case (Some v)
      then have "n \<in> fst ` set kw" by (metis map_of_eq_None_iff option.distinct(1))
      with Cons Segment Some format_field [of n "template_of ps" kw] show ?thesis by simp
    qed
  next
    case (Remainder n)
    show ?thesis
    proof (cases "map_of kw n")
      case None
      with Cons.prems Remainder format_field [of n "template_of ps" kw] show ?thesis by simp
    next
      case (Some v)
      then have "n \<in> fst ` set kw" by (metis map_of_eq_None_iff option.distinct(1))
      with Cons Remainder Some format_field [of n "template_of ps" kw] show ?thesis by simp
    qed
  qed
qed

subsection \<open>Matching a filled pattern\<close>

lemma match_text: "match_items (map lit_item t @ r) (t @ s) = match_items r s"
  by (induction t) (simp_all add: lit_item_def)

lemma first_Some_None: "\<forall>k\<in>set ks. f k = None \<Longrightarrow> first_Some f ks = None"
  by (induction ks) simp_all

lemma first_Some_last: "\<forall>k\<in>set ks. f k = None \<Longrightarrow> first_Some f (ks @ [n]) = f n"
  by (induction ks) (simp_all split: option.splits)





lemma first_Some_mid:
  "\<forall>k\<in>set ks. f k = None \<Longrightarrow> f n = Some y \<Longrightarrow> first_Some f (ks @ n # later) = Some y"
  by (induction ks) simp_all

lemma match_segment:
  assumes "v \<noteq> []" "CHR ''/'' \<notin> set v"
    "\<forall>k. 1 \<le> k \<and> k < length v \<longrightarrow> match_items r (drop k v @ s) = None"
    "match_items r s = Some g"
  shows "match_items (SegGroup n # r) (v @ s) = Some ((n, v) # g)"
proof -
  let ?P = "\<lambda>x. x \<noteq> CHR ''/''"
  let ?m = "length (takeWhile ?P s)"
  have tw: "takeWhile ?P (v @ s) = v @ takeWhile ?P s"
    using assms(2) by (intro takeWhile_append2) auto
  let ?f = "\<lambda>k. map_option (\<lambda>g. (n, take k (v @ s)) # g) (match_items r (drop k (v @ s)))"
  have "Suc 0 \<le> length v" using assms(1) by (cases v) simp_all
  then have "[1 ..< Suc (length v + ?m)] = [1 ..< length v] @ [length v ..< Suc (length v + ?m)]"
    using upt_add_eq_append [of 1 "length v" "Suc ?m"] by simp
  also have "[length v ..< Suc (length v + ?m)] = length v # [Suc (length v) ..< Suc (length v + ?m)]"
    by (rule upt_conv_Cons) simp
  finally have range: "[1 ..< Suc (length (takeWhile ?P (v @ s)))]
      = [1 ..< length v] @ length v # [Suc (length v) ..< Suc (length v + ?m)]"
    by (simp add: tw)
  have none: "\<forall>k\<in>set [1 ..< length v]. ?f k = None"
    using assms(3) by simp
  have hit: "?f (length v) = Some ((n, v) # g)"
    using assms(4) by simp
  have "match_items (SegGroup n # r) (v @ s)
      = first_Some ?f ([1 ..< length v] @ length v # [Suc (length v) ..< Suc (length v + ?m)])"
    by (simp only: match_items.simps range)
  also have "\<dots> = Some ((n, v) # g)"
    by (rule first_Some_mid [OF none hit])
  finally show ?thesis .
qed

lemma match_path_end:
  assumes "CHR 0x0A \<notin> set v"
  shows "match_items [PathGroup n] v = Some [(n, v)]"
proof -
  have v: "list_all (\<lambda>x. x \<noteq> CHR 0x0A) v"
    using assms by (auto simp: list_all_iff)
  have tw: "takeWhile (\<lambda>x. x \<noteq> CHR 0x0A) v = v"
    using span_all [OF v] by simp
  show ?thesis
    by (simp only: match_items.simps tw) simp
qed


lemma init_trailing:
  "s = [] \<or> last s \<noteq> CHR ''/'' \<Longrightarrow> UrlRule_init (s @ replicate k CHR ''/'') = UrlRule_init s"
  using UrlRule_init_rstrip [of "s @ replicate k CHR ''/''"] UrlRule_init_rstrip [of s]
  by (simp add: rstrip_append_replicate)

subsection \<open>What a segment group captures\<close>











section \<open>Round trip\<close>




lemma make_path_render:
  assumes "well_formed ps" "typed_first ps" "render ps = [] \<or> last (render ps) \<noteq> CHR ''/''"
    "set (placeholder_names ps) \<subseteq> fst ` set kwargs"
    "UrlRule_init (render ps @ replicate k CHR ''/'') = Inr rule"
  shows "make_path rule [] kwargs =
           Inr (Some (fill kwargs ps @
             (if filter (\<lambda>(k, v). k \<notin> set (placeholder_names ps)) kwargs = [] then []
              else ''?'' @ urlencode (filter (\<lambda>(k, v). k \<notin> set (placeholder_names ps)) kwargs))))"
proof -
  have gp: "list_all good_piece ps" using assms(1) by (simp add: well_formed_def)
  have rule: "rule = \<lparr>pattern = template_of ps, keywords_list = placeholder_names ps,
                compiled_pattern = regex_of ps, regex = items_of ps\<rparr>"
    using assms(5) init_trailing [OF assms(3), of k] init_render [OF assms(1,2,3)] by simp
  let ?known = "filter (\<lambda>(k, v). k \<in> set (placeholder_names ps)) kwargs"
  have "set (placeholder_names ps) \<subseteq> fst ` set ?known"
    using assms(4) by force
  from format_template [OF gp this]
  have "str_format (template_of ps) ?known = Inr (fill ?known ps)" .
  moreover have "fill ?known ps = fill kwargs ps"
    by (rule fill_cong) (simp add: value_of_filter)
  ultimately show ?thesis
    by (simp add: make_path_def rule)
qed



section \<open>Values of segment placeholders\<close>




section \<open>Keyword arguments\<close>

text \<open>
  When \<open>make_path\<close> with keyword arguments only gives a path, the path is the template
  filled with the arguments whose keys are in the keyword list of the rule, followed, when
  other arguments are left, by \<open>?\<close> and their URL-encoded query string, and by nothing
  otherwise. For a pattern written in the pattern language in which no placeholder
  without a type is followed by one with a type, the keyword list holds the names of the
  placeholders and the path is the pattern with the values filled in. The pattern
  \<open>/show/<id>\<close> with \<open>id = 42\<close> and \<open>sort = asc\<close> gives \<open>/show/42?sort=asc\<close>.
\<close>

lemma make_path_keywords:
  "(make_path rule [] kwargs = Inr (Some path) \<longrightarrow>
      (\<exists>body. str_format (pattern rule)
                 (filter (\<lambda>(k, v). k \<in> set (keywords_list rule)) kwargs) = Inr body
         \<and> path = body @
             (if filter (\<lambda>(k, v). k \<notin> set (keywords_list rule)) kwargs = [] then []
              else ''?'' @ urlencode (filter (\<lambda>(k, v). k \<notin> set (keywords_list rule)) kwargs))))
   \<and> (well_formed ps \<and> typed_first ps \<and> (render ps = [] \<or> last (render ps) \<noteq> CHR ''/'')
        \<and> set (placeholder_names ps) \<subseteq> fst ` set kwargs
        \<and> UrlRule_init (render ps @ replicate k CHR ''/'') = Inr rule'
      \<longrightarrow> keywords_list rule' = placeholder_names ps
        \<and> make_path rule' [] kwargs =
           Inr (Some (fill kwargs ps @
             (if filter (\<lambda>(k, v). k \<notin> set (placeholder_names ps)) kwargs = [] then []
              else ''?'' @ urlencode (filter (\<lambda>(k, v). k \<notin> set (placeholder_names ps)) kwargs)))))
   \<and> UrlRule_init ''/show/<id>'' = Inr show_rule
   \<and> make_path show_rule [] [(''id'', ''42''), (''sort'', ''asc'')] = Inr (Some ''/show/42?sort=asc'')"
proof -
  have general: "make_path rule [] kwargs = Inr (Some path) \<longrightarrow>
      (\<exists>body. str_format (pattern rule)
                 (filter (\<lambda>(k, v). k \<in> set (keywords_list rule)) kwargs) = Inr body
         \<and> path = body @
             (if filter (\<lambda>(k, v). k \<notin> set (keywords_list rule)) kwargs = [] then []
              else ''?'' @ urlencode (filter (\<lambda>(k, v). k \<notin> set (keywords_list rule)) kwargs)))"
    by (auto simp: make_path_def Let_def split: sum.splits if_splits)
  have pieces: "well_formed ps \<and> typed_first ps \<and> (render ps = [] \<or> last (render ps) \<noteq> CHR ''/'')
        \<and> set (placeholder_names ps) \<subseteq> fst ` set kwargs
        \<and> UrlRule_init (render ps @ replicate k CHR ''/'') = Inr rule'
      \<longrightarrow> keywords_list rule' = placeholder_names ps
        \<and> make_path rule' [] kwargs =
           Inr (Some (fill kwargs ps @
             (if filter (\<lambda>(k, v). k \<notin> set (placeholder_names ps)) kwargs = [] then []
              else ''?'' @ urlencode (filter (\<lambda>(k, v). k \<notin> set (placeholder_names ps)) kwargs))))"
  proof (intro impI)
    assume a: "well_formed ps \<and> typed_first ps \<and> (render ps = [] \<or> last (render ps) \<noteq> CHR ''/'')
        \<and> set (placeholder_names ps) \<subseteq> fst ` set kwargs
        \<and> UrlRule_init (render ps @ replicate k CHR ''/'') = Inr rule'"
    then have wf: "well_formed ps" and tf: "typed_first ps"
      and nt: "render ps = [] \<or> last (render ps) \<noteq> CHR ''/''"
      and keys: "set (placeholder_names ps) \<subseteq> fst ` set kwargs"
      and init: "UrlRule_init (render ps @ replicate k CHR ''/'') = Inr rule'" by simp_all
    from init init_trailing [OF nt, of k] init_render [OF wf tf nt]
    have "keywords_list rule' = placeholder_names ps" by auto
    with make_path_render [OF wf tf nt keys init]
    show "keywords_list rule' = placeholder_names ps
        \<and> make_path rule' [] kwargs =
           Inr (Some (fill kwargs ps @
             (if filter (\<lambda>(k, v). k \<notin> set (placeholder_names ps)) kwargs = [] then []
              else ''?'' @ urlencode (filter (\<lambda>(k, v). k \<notin> set (placeholder_names ps)) kwargs))))"
      by simp
  qed
  have init: "UrlRule_init ''/show/<id>'' = Inr show_rule"
    by (simp add: eval_defs show_rule_def)
  have example: "make_path show_rule [] [(''id'', ''42''), (''sort'', ''asc'')]
      = Inr (Some ''/show/42?sort=asc'')"
    by (simp add: eval_defs show_rule_def)
  from general pieces init example show ?thesis by blast
qed

lemma make_path_keywords_example:
  "make_path show_rule [] [(''id'', ''42''), (''sort'', ''asc'')] = Inr (Some ''/show/42?sort=asc'')
   \<and> str_format (pattern show_rule)
        (filter (\<lambda>(k, v). k \<in> set (keywords_list show_rule)) [(''id'', ''42''), (''sort'', ''asc'')])
       = Inr ''/show/42''
   \<and> urlencode (filter (\<lambda>(k, v). k \<notin> set (keywords_list show_rule))
        [(''id'', ''42''), (''sort'', ''asc'')]) = ''sort=asc''
   \<and> well_formed [Text ''/show/'', Segment False ''id'']
   \<and> typed_first [Text ''/show/'', Segment False ''id'']
   \<and> render [Text ''/show/'', Segment False ''id''] @ replicate 0 CHR ''/'' = ''/show/<id>''
   \<and> fill [(''id'', ''42''), (''sort'', ''asc'')] [Text ''/show/'', Segment False ''id''] = ''/show/42''
   \<and> UrlRule_init ''/show/<id>'' = Inr show_rule"
  using make_path_keywords [where rule = show_rule and kwargs = "[(''id'', ''42''), (''sort'', ''asc'')]"
      and path = "''/show/42?sort=asc''" and ps = "[Text ''/show/'', Segment False ''id'']"
      and k = 0 and rule' = show_rule]
  by (simp add: eval_defs piece_defs show_rule_def)

text \<open>
  C6 says that in keyword mode the values whose keys are placeholder names go into the
  template and only the remaining ones go to the query string. The code departs from it
  on the pattern \<open>/item/<id>/<path:rest>\<close>, whose placeholders are \<open>id\<close> and \<open>rest\<close>: the
  expression for the keywords takes \<open><id>/<path:rest>\<close> as one placeholder named
  \<open>rest\<close>, so the keyword list is \<open>[rest]\<close> and the template \<open>/item/{rest}\<close>, while the
  compiled expression has both groups. With \<open>id = 7\<close> and \<open>rest = a/b\<close>, \<open>make_path\<close>
  gives \<open>/item/a/b?id=7\<close>: the value of the placeholder \<open>id\<close> is in the query string.
  With the type written out, \<open>/item/<string:id>/<path:rest>\<close>, it gives \<open>/item/7/a/b\<close>.
\<close>

theorem keyword_of_untyped_placeholder_lost:
  "matcher_of kw_pattern ''<id>/<path:rest>'' = Some (''rest'', 16)
   \<and> UrlRule_init ''/item/<id>/<path:rest>'' =
     Inr \<lparr>pattern = ''/item/{rest}'', keywords_list = [''rest''],
          compiled_pattern = ''/item/(?P<id>[^/]+?)/(?P<rest>.*)'',
          regex = [Lit CHR ''/'', Lit CHR ''i'', Lit CHR ''t'', Lit CHR ''e'', Lit CHR ''m'',
                   Lit CHR ''/'', SegGroup ''id'', Lit CHR ''/'', PathGroup ''rest'']\<rparr>
   \<and> make_path \<lparr>pattern = ''/item/{rest}'', keywords_list = [''rest''],
          compiled_pattern = ''/item/(?P<id>[^/]+?)/(?P<rest>.*)'',
          regex = [Lit CHR ''/'', Lit CHR ''i'', Lit CHR ''t'', Lit CHR ''e'', Lit CHR ''m'',
                   Lit CHR ''/'', SegGroup ''id'', Lit CHR ''/'', PathGroup ''rest'']\<rparr>
        [] [(''id'', ''7''), (''rest'', ''a/b'')] = Inr (Some ''/item/a/b?id=7'')
   \<and> UrlRule_init ''/item/<string:id>/<path:rest>'' =
     Inr \<lparr>pattern = ''/item/{id}/{rest}'', keywords_list = [''id'', ''rest''],
          compiled_pattern = ''/item/(?P<id>[^/]+?)/(?P<rest>.*)'',
          regex = [Lit CHR ''/'', Lit CHR ''i'', Lit CHR ''t'', Lit CHR ''e'', Lit CHR ''m'',
                   Lit CHR ''/'', SegGroup ''id'', Lit CHR ''/'', PathGroup ''rest'']\<rparr>
   \<and> make_path \<lparr>pattern = ''/item/{id}/{rest}'', keywords_list = [''id'', ''rest''],
          compiled_pattern = ''/item/(?P<id>[^/]+?)/(?P<rest>.*)'',
          regex = [Lit CHR ''/'', Lit CHR ''i'', Lit CHR ''t'', Lit CHR ''e'', Lit CHR ''m'',
                   Lit CHR ''/'', SegGroup ''id'', Lit CHR ''/'', PathGroup ''rest'']\<rparr>
        [] [(''id'', ''7''), (''rest'', ''a/b'')] = Inr (Some ''/item/7/a/b'')"
proof -
  have "matcher_of kw_pattern ''<id>/<path:rest>'' = Some (''rest'', 16)"
    by (simp add: matcher_of_def kw_pattern_def name_group_def in_Az_def)
  then show ?thesis by (simp add: eval_defs)
qed

section \<open>The two kinds of placeholder\<close>

lemma match_segment_end:
  assumes "v \<noteq> []" "CHR ''/'' \<notin> set v" "CHR 0x0A \<notin> set v"
  shows "match_items [SegGroup n] v = Some [(n, v)]"
proof -
  have early: "\<forall>k. 1 \<le> k \<and> k < length v \<longrightarrow> match_items [] (drop k v @ []) = None"
  proof (intro allI impI)
    fix k
    assume "1 \<le> k \<and> k < length v"
    then obtain x w where d: "drop k v = x # w" by (cases "drop k v") simp_all
    then have "x \<in> set v" by (metis in_set_dropD list.set_intros(1))
    with assms(3) have "x \<noteq> CHR 0x0A" by auto
    with d show "match_items [] (drop k v @ []) = None" by simp
  qed
  from match_segment [OF assms(1,2) early, of "[]" n] show ?thesis by simp
qed

lemma match_segment_slash:
  assumes "CHR ''/'' \<in> set v"
  shows "match_items [SegGroup n] v = None"
proof -
  let ?P = "\<lambda>x. x \<noteq> CHR ''/''"
  have none: "\<forall>k\<in>set [1 ..< Suc (length (takeWhile ?P v))].
      map_option (\<lambda>g. (n, take k v) # g) (match_items [] (drop k v)) = None"
  proof
    fix k
    assume "k \<in> set [1 ..< Suc (length (takeWhile ?P v))]"
    then have k: "k \<le> length (takeWhile ?P v)" by auto
    have "dropWhile ?P v \<noteq> []" using assms by (simp add: dropWhile_eq_Nil_conv)
    then obtain r where r: "dropWhile ?P v = CHR ''/'' # r"
      using hd_dropWhile [of ?P v] by (cases "dropWhile ?P v") auto
    have "v = takeWhile ?P v @ CHR ''/'' # r" using r by (metis takeWhile_dropWhile_id)
    then have "drop k v = drop k (takeWhile ?P v) @ CHR ''/'' # r"
      using k by (metis drop_append diff_is_0_eq drop_0)
    then have "drop k v \<noteq> [] \<and> drop k v \<noteq> [CHR 0x0A]"
      by (cases "drop k (takeWhile ?P v)") auto
    then show "map_option (\<lambda>g. (n, take k v) # g) (match_items [] (drop k v)) = None"
      by simp
  qed
  have "match_items [SegGroup n] v
      = first_Some (\<lambda>k. map_option (\<lambda>g. (n, take k v) # g) (match_items [] (drop k v)))
          [1 ..< Suc (length (takeWhile ?P v))]"
    by (simp only: match_items.simps)
  with first_Some_None [OF none] show ?thesis by simp
qed

lemma single_segment:
  assumes "list_all plain_char t" "good_name n"
  shows "UrlRule_init (t @ ''<'' @ n @ ''>'') =
           Inr \<lparr>pattern = t @ ''{'' @ n @ ''}'', keywords_list = [n],
                compiled_pattern = t @ ''(?P<'' @ n @ ''>[^/]+?)'',
                regex = map lit_item t @ [SegGroup n]\<rparr>"
    and "UrlRule_init (t @ ''<string:'' @ n @ ''>'') =
           Inr \<lparr>pattern = t @ ''{'' @ n @ ''}'', keywords_list = [n],
                compiled_pattern = t @ ''(?P<'' @ n @ ''>[^/]+?)'',
                regex = map lit_item t @ [SegGroup n]\<rparr>"
    and "UrlRule_init (t @ ''<path:'' @ n @ ''>'') =
           Inr \<lparr>pattern = t @ ''{'' @ n @ ''}'', keywords_list = [n],
                compiled_pattern = t @ ''(?P<'' @ n @ ''>.*)'',
                regex = map lit_item t @ [PathGroup n]\<rparr>"
  using init_render [of "[Text t, Segment False n]"] init_render [of "[Text t, Segment True n]"]
    init_render [of "[Text t, Remainder n]"] assms
  by (simp_all add: well_formed_def)

lemma two_segments:
  assumes "list_all plain_char t" "good_name a" "good_name b" "a \<noteq> b"
  shows "UrlRule_init (t @ ''<'' @ a @ ''><'' @ b @ ''>'') =
           Inr \<lparr>pattern = t @ ''{'' @ a @ ''}{'' @ b @ ''}'', keywords_list = [a, b],
                compiled_pattern = t @ ''(?P<'' @ a @ ''>[^/]+?)(?P<'' @ b @ ''>[^/]+?)'',
                regex = map lit_item t @ [SegGroup a, SegGroup b]\<rparr>"
  using init_render [of "[Text t, Segment False a, Segment False b]"] assms
  by (simp add: well_formed_def)

lemma match_two_segments:
  assumes "w \<noteq> []" "CHR ''/'' \<notin> set (x # w)" "CHR 0x0A \<notin> set (x # w)"
  shows "match_items [SegGroup a, SegGroup b] (x # w) = Some [(a, [x]), (b, w)]"
proof -
  have rest: "match_items [SegGroup b] w = Some [(b, w)]"
    using assms by (intro match_segment_end) simp_all
  have "match_items (SegGroup a # [SegGroup b]) ([x] @ w) = Some ((a, [x]) # [(b, w)])"
    using assms(2) rest by (intro match_segment) simp_all
  then show ?thesis by simp
qed

lemma typed_pieces:
  "render (map typed ps) = render_typed ps" "items_of (map typed ps) = items_of ps"
  "regex_of (map typed ps) = regex_of ps" "template_of (map typed ps) = template_of ps"
  "placeholder_names (map typed ps) = placeholder_names ps"
  "list_all good_piece (map typed ps) = list_all good_piece ps"
  "typed_first (map typed ps)"
proof (induction ps)
  case Nil
  {
    case 1 show ?case by simp
  next
    case 2 show ?case by simp
  next
    case 3 show ?case by simp
  next
    case 4 show ?case by simp
  next
    case 5 show ?case by simp
  next
    case 6 show ?case by simp
  next
    case 7 show ?case by simp
  }
next
  case (Cons p ps)
  {
    case 1 with Cons show ?case by (cases p) simp_all
  next
    case 2 with Cons show ?case by (cases p) simp_all
  next
    case 3 with Cons show ?case by (cases p) simp_all
  next
    case 4 with Cons show ?case by (cases p) simp_all
  next
    case 5 with Cons show ?case by (cases p) simp_all
  next
    case 6 with Cons show ?case by (cases p) simp_all
  next
    case 7 with Cons show ?case by (cases p) simp_all
  }
qed

lemma render_typed_shape:
  "(render_typed ps = [] \<longleftrightarrow> render ps = []) \<and> last (render_typed ps) = last (render ps)"
proof (induction ps)
  case Nil
  then show ?case by simp
next
  case (Cons p ps)
  show ?case
  proof (cases p)
    case (Text t)
    with Cons show ?thesis by (simp add: last_append)
  next
    case (Segment b n)
    with Cons show ?thesis by (cases b) (simp_all add: last_append)
  next
    case (Remainder n)
    with Cons show ?thesis by (simp add: last_append)
  qed
qed

lemma init_render_typed:
  assumes "well_formed ps" "render ps = [] \<or> last (render ps) \<noteq> CHR ''/''"
  shows "UrlRule_init (render_typed ps) =
           Inr \<lparr>pattern = template_of ps, keywords_list = placeholder_names ps,
                compiled_pattern = regex_of ps, regex = items_of ps\<rparr>"
proof -
  have wf: "well_formed (map typed ps)"
    using assms(1) by (simp add: well_formed_def typed_pieces)
  have nt: "render (map typed ps) = [] \<or> last (render (map typed ps)) \<noteq> CHR ''/''"
    using assms(2) render_typed_shape [of ps] by (simp add: typed_pieces)
  from init_render [OF wf typed_pieces(7) nt] show ?thesis
    by (simp add: typed_pieces)
qed

text \<open>
  C2: behind literal text \<open>t\<close>, the placeholders \<open><name>\<close> and \<open><string:name>\<close> compile
  to the same rule; on a path \<open>t\<close> followed by \<open>v\<close> the rule matches with \<open>name = v\<close> when
  \<open>v\<close> is not empty and has no \<open>/\<close> (and no newline), and it does not match when \<open>v\<close> has
  a \<open>/\<close>. The placeholder \<open><path:name>\<close> matches with \<open>name = v\<close> for every \<open>v\<close> without a
  newline, with or without \<open>/\<close>. The segment group is lazy: of two segment placeholders
  in a row the first takes one character. In every pattern of the pattern language,
  writing the segment placeholders with or without \<open>string:\<close> gives the same compiled
  expression. \<open>/videos/<path:rest>\<close> matches
  \<open>/videos/a/b/c\<close> with \<open>rest = a/b/c\<close>, and \<open>/videos/<name>\<close> does not match it.
\<close>

theorem placeholder_kinds:
  "(list_all plain_char t \<and> good_name n \<longrightarrow>
      UrlRule_init (t @ ''<'' @ n @ ''>'') = UrlRule_init (t @ ''<string:'' @ n @ ''>'')
      \<and> UrlRule_init (t @ ''<'' @ n @ ''>'') =
          Inr \<lparr>pattern = t @ ''{'' @ n @ ''}'', keywords_list = [n],
               compiled_pattern = t @ ''(?P<'' @ n @ ''>[^/]+?)'',
               regex = map lit_item t @ [SegGroup n]\<rparr>
      \<and> (v \<noteq> [] \<and> CHR ''/'' \<notin> set v \<and> CHR 0x0A \<notin> set v \<longrightarrow>
           match \<lparr>pattern = t @ ''{'' @ n @ ''}'', keywords_list = [n],
               compiled_pattern = t @ ''(?P<'' @ n @ ''>[^/]+?)'',
               regex = map lit_item t @ [SegGroup n]\<rparr> (t @ v) = Some [(n, v)])
      \<and> (CHR ''/'' \<in> set v \<longrightarrow>
           match \<lparr>pattern = t @ ''{'' @ n @ ''}'', keywords_list = [n],
               compiled_pattern = t @ ''(?P<'' @ n @ ''>[^/]+?)'',
               regex = map lit_item t @ [SegGroup n]\<rparr> (t @ v) = None)
      \<and> UrlRule_init (t @ ''<path:'' @ n @ ''>'') =
          Inr \<lparr>pattern = t @ ''{'' @ n @ ''}'', keywords_list = [n],
               compiled_pattern = t @ ''(?P<'' @ n @ ''>.*)'',
               regex = map lit_item t @ [PathGroup n]\<rparr>
      \<and> (CHR 0x0A \<notin> set v \<longrightarrow>
           match \<lparr>pattern = t @ ''{'' @ n @ ''}'', keywords_list = [n],
               compiled_pattern = t @ ''(?P<'' @ n @ ''>.*)'',
               regex = map lit_item t @ [PathGroup n]\<rparr> (t @ v) = Some [(n, v)]))
   \<and> (list_all plain_char t \<and> good_name a \<and> good_name b \<and> a \<noteq> b \<longrightarrow>
      UrlRule_init (t @ ''<'' @ a @ ''><'' @ b @ ''>'') =
          Inr \<lparr>pattern = t @ ''{'' @ a @ ''}{'' @ b @ ''}'', keywords_list = [a, b],
               compiled_pattern = t @ ''(?P<'' @ a @ ''>[^/]+?)(?P<'' @ b @ ''>[^/]+?)'',
               regex = map lit_item t @ [SegGroup a, SegGroup b]\<rparr>
      \<and> (w \<noteq> [] \<and> CHR ''/'' \<notin> set (x # w) \<and> CHR 0x0A \<notin> set (x # w) \<longrightarrow>
           match \<lparr>pattern = t @ ''{'' @ a @ ''}{'' @ b @ ''}'', keywords_list = [a, b],
               compiled_pattern = t @ ''(?P<'' @ a @ ''>[^/]+?)(?P<'' @ b @ ''>[^/]+?)'',
               regex = map lit_item t @ [SegGroup a, SegGroup b]\<rparr> (t @ x # w)
             = Some [(a, [x]), (b, w)]))
   \<and> (well_formed ps \<and> (render ps = [] \<or> last (render ps) \<noteq> CHR ''/'') \<longrightarrow>
        (\<exists>r1 r2. UrlRule_init (render ps) = Inr r1 \<and> UrlRule_init (render_typed ps) = Inr r2
           \<and> compiled_pattern r1 = compiled_pattern r2 \<and> regex r1 = regex r2
           \<and> match r1 path = match r2 path))
   \<and> UrlRule_init ''/videos/<path:rest>'' = Inr videos_path_rule
   \<and> match videos_path_rule ''/videos/a/b/c'' = Some [(''rest'', ''a/b/c'')]
   \<and> UrlRule_init ''/videos/<name>'' = Inr videos_rule
   \<and> match videos_rule ''/videos/a/b/c'' = None"
proof -
  have same: "well_formed ps \<and> (render ps = [] \<or> last (render ps) \<noteq> CHR ''/'') \<longrightarrow>
        (\<exists>r1 r2. UrlRule_init (render ps) = Inr r1 \<and> UrlRule_init (render_typed ps) = Inr r2
           \<and> compiled_pattern r1 = compiled_pattern r2 \<and> regex r1 = regex r2
           \<and> match r1 path = match r2 path)"
    using init_render_regex [of ps] init_render_typed [of ps] by (auto simp: match_def)
  have one: "list_all plain_char t \<and> good_name n \<longrightarrow>
      UrlRule_init (t @ ''<'' @ n @ ''>'') = UrlRule_init (t @ ''<string:'' @ n @ ''>'')
      \<and> UrlRule_init (t @ ''<'' @ n @ ''>'') =
          Inr \<lparr>pattern = t @ ''{'' @ n @ ''}'', keywords_list = [n],
               compiled_pattern = t @ ''(?P<'' @ n @ ''>[^/]+?)'',
               regex = map lit_item t @ [SegGroup n]\<rparr>
      \<and> (v \<noteq> [] \<and> CHR ''/'' \<notin> set v \<and> CHR 0x0A \<notin> set v \<longrightarrow>
           match \<lparr>pattern = t @ ''{'' @ n @ ''}'', keywords_list = [n],
               compiled_pattern = t @ ''(?P<'' @ n @ ''>[^/]+?)'',
               regex = map lit_item t @ [SegGroup n]\<rparr> (t @ v) = Some [(n, v)])
      \<and> (CHR ''/'' \<in> set v \<longrightarrow>
           match \<lparr>pattern = t @ ''{'' @ n @ ''}'', keywords_list = [n],
               compiled_pattern = t @ ''(?P<'' @ n @ ''>[^/]+?)'',
               regex = map lit_item t @ [SegGroup n]\<rparr> (t @ v) = None)
      \<and> UrlRule_init (t @ ''<path:'' @ n @ ''>'') =
          Inr \<lparr>pattern = t @ ''{'' @ n @ ''}'', keywords_list = [n],
               compiled_pattern = t @ ''(?P<'' @ n @ ''>.*)'',
               regex = map lit_item t @ [PathGroup n]\<rparr>
      \<and> (CHR 0x0A \<notin> set v \<longrightarrow>
           match \<lparr>pattern = t @ ''{'' @ n @ ''}'', keywords_list = [n],
               compiled_pattern = t @ ''(?P<'' @ n @ ''>.*)'',
               regex = map lit_item t @ [PathGroup n]\<rparr> (t @ v) = Some [(n, v)])"
    using single_segment [of t n] match_segment_end [of v n] match_segment_slash [of v n]
      match_path_end [of v n]
    by (simp add: match_def match_text)
  have two: "list_all plain_char t \<and> good_name a \<and> good_name b \<and> a \<noteq> b \<longrightarrow>
      UrlRule_init (t @ ''<'' @ a @ ''><'' @ b @ ''>'') =
          Inr \<lparr>pattern = t @ ''{'' @ a @ ''}{'' @ b @ ''}'', keywords_list = [a, b],
               compiled_pattern = t @ ''(?P<'' @ a @ ''>[^/]+?)(?P<'' @ b @ ''>[^/]+?)'',
               regex = map lit_item t @ [SegGroup a, SegGroup b]\<rparr>
      \<and> (w \<noteq> [] \<and> CHR ''/'' \<notin> set (x # w) \<and> CHR 0x0A \<notin> set (x # w) \<longrightarrow>
           match \<lparr>pattern = t @ ''{'' @ a @ ''}{'' @ b @ ''}'', keywords_list = [a, b],
               compiled_pattern = t @ ''(?P<'' @ a @ ''>[^/]+?)(?P<'' @ b @ ''>[^/]+?)'',
               regex = map lit_item t @ [SegGroup a, SegGroup b]\<rparr> (t @ x # w)
             = Some [(a, [x]), (b, w)])"
    using two_segments [of t a b] match_two_segments [of w x a b]
    by (simp add: match_def match_text)
  have ex1: "UrlRule_init ''/videos/<path:rest>'' = Inr videos_path_rule"
    by (simp add: eval_defs videos_path_rule_def)
  have ex2: "match videos_path_rule ''/videos/a/b/c'' = Some [(''rest'', ''a/b/c'')]"
    by (simp add: match_def videos_path_rule_def)
  have ex3: "UrlRule_init ''/videos/<name>'' = Inr videos_rule"
    by (simp add: eval_defs videos_rule_def)
  have ex4: "match videos_rule ''/videos/a/b/c'' = None"
    by (simp add: match_def videos_rule_def)
  from one two same ex1 ex2 ex3 ex4 show ?thesis by blast
qed

theorem placeholder_kinds_witness:
  "list_all plain_char ''/videos/'' \<and> good_name ''name''
   \<and> UrlRule_init ''/videos/<name>'' = UrlRule_init ''/videos/<string:name>''
   \<and> UrlRule_init ''/videos/<name>'' = Inr videos_rule
   \<and> match videos_rule ''/videos/abc'' = Some [(''name'', ''abc'')]
   \<and> match videos_rule ''/videos/a/b/c'' = None
   \<and> UrlRule_init ''/videos/<path:name>'' =
        Inr \<lparr>pattern = ''/videos/{name}'', keywords_list = [''name''],
             compiled_pattern = ''/videos/(?P<name>.*)'',
             regex = map lit_item ''/videos/'' @ [PathGroup ''name'']\<rparr>
   \<and> match \<lparr>pattern = ''/videos/{name}'', keywords_list = [''name''],
             compiled_pattern = ''/videos/(?P<name>.*)'',
             regex = map lit_item ''/videos/'' @ [PathGroup ''name'']\<rparr> ''/videos/a/b/c''
        = Some [(''name'', ''a/b/c'')]
   \<and> good_name ''a'' \<and> good_name ''b''
   \<and> well_formed [Text ''/item/'', Segment False ''id'', Text ''/'', Remainder ''rest'']
   \<and> render [Text ''/item/'', Segment False ''id'', Text ''/'', Remainder ''rest'']
        = ''/item/<id>/<path:rest>''
   \<and> render_typed [Text ''/item/'', Segment False ''id'', Text ''/'', Remainder ''rest'']
        = ''/item/<string:id>/<path:rest>''
   \<and> (\<exists>r1 r2. UrlRule_init ''/item/<id>/<path:rest>'' = Inr r1
          \<and> UrlRule_init ''/item/<string:id>/<path:rest>'' = Inr r2
          \<and> compiled_pattern r1 = compiled_pattern r2 \<and> regex r1 = regex r2
          \<and> match r1 ''/item/7/a/b'' = match r2 ''/item/7/a/b'')
   \<and> match \<lparr>pattern = ''/{a}{b}'', keywords_list = [''a'', ''b''],
             compiled_pattern = ''/(?P<a>[^/]+?)(?P<b>[^/]+?)'',
             regex = map lit_item ''/'' @ [SegGroup ''a'', SegGroup ''b'']\<rparr> ''/xyz''
        = Some [(''a'', ''x''), (''b'', ''yz'')]"
  using placeholder_kinds [where t = "''/videos/''" and n = "''name''" and v = "''abc''"
      and a = "''a''" and b = "''b''" and x = "CHR ''x''" and w = "''yz''"
      and ps = "[Text ''/item/'', Segment False ''id'', Text ''/'', Remainder ''rest'']"
      and path = "''/item/7/a/b''"]
    placeholder_kinds [where t = "''/videos/''" and n = "''name''" and v = "''a/b/c''"
      and a = "''a''" and b = "''b''" and x = "CHR ''x''" and w = "''yz''"
      and ps = "[Text ''/item/'', Segment False ''id'', Text ''/'', Remainder ''rest'']"
      and path = "''/item/7/a/b''"]
    placeholder_kinds [where t = "''/''" and n = "''name''" and v = "''a/b/c''"
      and a = "''a''" and b = "''b''" and x = "CHR ''x''" and w = "''yz''"
      and ps = "[Text ''/item/'', Segment False ''id'', Text ''/'', Remainder ''rest'']"
      and path = "''/item/7/a/b''"]
  by (simp add: piece_defs videos_rule_def lit_item_def)

end
